theory Spec2Isabelle
  imports Main "HOL-Library.Word"
begin

unbundle bit_operations_syntax

section \<open>Shared data: bytes, addresses, chunks, errors\<close>

type_synonym byte = "8 word"

text \<open>\<^verbatim>\<open>infinity.Address\<close> wraps a byte slice; overlay addresses are 32 bytes long.\<close>

type_synonym address = "byte list"

record chunk =
  chunk_address :: address
  chunk_data :: "byte list"

text \<open>
  The sentinel errors of the packages involved, the transport's backoff error with its
  \<^verbatim>\<open>TryAfter\<close> time, the wrapping done by \<^verbatim>\<open>fmt.Errorf("...: %w", err)\<close>, and any
  other error value a collaborator may return.
\<close>

datatype error =
    StorageErrNotFound
  | TopologyErrNotFound
  | TopologyErrWantSelf
  | AddressbookErrNotFound
  | LeveldbErrNotFound
  | ErrRecoveryAttempt
  | ErrInvalidAddress
  | ErrOverlayMismatch
  | ErrInvalidMode
  | ErrShortWrite
  | ErrClosedPipe
  | ErrAddressLength
  | ErrPanic
  | P2PErrAlreadyConnected
  | ConnectionBackoffError int
  | Wrap string error
  | External string

text \<open>\<^verbatim>\<open>errors.Is\<close>: the error itself or any error it wraps.\<close>

fun errors_Is :: "error \<Rightarrow> error \<Rightarrow> bool" where
  "errors_Is (Wrap s e) t = (Wrap s e = t \<or> errors_Is e t)"
| "errors_Is e t = (e = t)"

datatype ModeGet = ModeGetRequest | ModeGetSync | ModeGetLookup | ModeGetPin | ModeGetOther

datatype ModePut = ModePutRequest | ModePutSync | ModePutUpload | ModePutUploadPin


text \<open>
  \<^verbatim>\<open>ifi.Address\<close>: a peer record. The underlay is kept as the bytes of its multiaddress.
\<close>

record ifi_Address =
  Underlay :: "byte list"
  Overlay :: address
  Signature :: "byte list"

text \<open>The address book's \<^verbatim>\<open>Get\<close>: the record, \<^verbatim>\<open>ErrNotFound\<close>, or another error.\<close>

type_synonym addressbook = "address \<Rightarrow> error + ifi_Address"

text \<open>A 32-byte address with the given first byte and zeros after it, for concrete inputs.\<close>

definition addr32 :: "byte \<Rightarrow> address" where
  "addr32 b = b # replicate 31 0"

section \<open>Netstore\<close>

type_synonym targets = "byte list list"

text \<open>The request context, as far as \<^verbatim>\<open>sctx.GetTargets\<close> reads it: nil when no targets were set.\<close>

record ctx =
  ctx_targets :: "targets option"

datatype callback = Callback nat

text \<open>
  The netstore \<^verbatim>\<open>store\<close> struct: the embedded local \<^verbatim>\<open>Storer\<close> (its Get and Put),
  the retrieval collaborator and the recovery callback (nil when none is registered).
\<close>

record store =
  Storer_Get :: "ModeGet \<Rightarrow> address \<Rightarrow> error + chunk"
  Storer_Put :: "ModePut \<Rightarrow> chunk \<Rightarrow> error option"
  retrieval :: "address \<Rightarrow> error + chunk"
  recoveryCallback :: "callback option"

text \<open>What one call of \<^verbatim>\<open>Get\<close> does to its collaborators, in order.\<close>

datatype event =
    EvStorerGet ModeGet address
  | EvRetrieveChunk address
  | EvStorerPut ModePut chunk
  | EvGo callback address targets

definition netstore_Get :: "store \<Rightarrow> ctx \<Rightarrow> ModeGet \<Rightarrow> address \<Rightarrow> (error + chunk) \<times> event list" where
  "netstore_Get s c mode addr =
     (case Storer_Get s mode addr of
        Inr ch \<Rightarrow> (Inr ch, [EvStorerGet mode addr])
      | Inl err \<Rightarrow>
          if errors_Is err StorageErrNotFound then
            (case retrieval s addr of
               Inl rerr \<Rightarrow>
                 (case (ctx_targets c, recoveryCallback s) of
                    (Some ts, Some cb) \<Rightarrow>
                      (Inl ErrRecoveryAttempt,
                       [EvStorerGet mode addr, EvRetrieveChunk addr, EvGo cb addr ts])
                  | _ \<Rightarrow> (Inl rerr, [EvStorerGet mode addr, EvRetrieveChunk addr]))
             | Inr ch \<Rightarrow>
                 (case Storer_Put s ModePutRequest ch of
                    Some perr \<Rightarrow>
                      (Inl (Wrap ''netstore retrieve put'' perr),
                       [EvStorerGet mode addr, EvRetrieveChunk addr, EvStorerPut ModePutRequest ch])
                  | None \<Rightarrow>
                      (Inr ch,
                       [EvStorerGet mode addr, EvRetrieveChunk addr, EvStorerPut ModePutRequest ch])))
          else (Inl (Wrap ''netstore get'' err), [EvStorerGet mode addr]))"

text \<open>Concrete collaborators used to evaluate \<^const>\<open>netstore_Get\<close>.\<close>

definition ex_chunk :: chunk where
  "ex_chunk = \<lparr>chunk_address = [1, 2, 3], chunk_data = [7, 7]\<rparr>"

definition store_miss :: store where
  "store_miss = \<lparr>Storer_Get = (\<lambda>m a. Inl StorageErrNotFound),
                 Storer_Put = (\<lambda>m ch. None),
                 retrieval = (\<lambda>a. Inl (External ''context deadline exceeded'')),
                 recoveryCallback = None\<rparr>"

definition store_miss_cb :: store where
  "store_miss_cb = store_miss\<lparr>recoveryCallback := Some (Callback 0)\<rparr>"

definition store_remote :: store where
  "store_remote = store_miss\<lparr>retrieval := (\<lambda>a. Inr ex_chunk)\<rparr>"

definition store_remote_putfail :: store where
  "store_remote_putfail = store_remote\<lparr>Storer_Put := (\<lambda>m ch. Some (External ''disk full''))\<rparr>"

definition store_local :: store where
  "store_local = store_miss\<lparr>Storer_Get := (\<lambda>m a. Inr ex_chunk)\<rparr>"

section \<open>Hive: broadcasting peers in batches\<close>






text \<open>
  The loop of \<^verbatim>\<open>sendPeers\<close> over its peers: a peer the address book does not know is
  skipped, any other address book error is returned, a found record is appended.
\<close>

fun peersRequest :: "addressbook \<Rightarrow> address list \<Rightarrow> ifi_Address list \<Rightarrow> error + ifi_Address list" where
  "peersRequest ab [] acc = Inr acc"
| "peersRequest ab (p # ps) acc =
     (case ab p of
        Inl err \<Rightarrow> if err = AddressbookErrNotFound then peersRequest ab ps acc else Inl err
      | Inr addr \<Rightarrow> peersRequest ab ps (acc @ [addr]))"





text \<open>
  The specification's words: the list cut, in order, into consecutive batches of at most
  \<open>n\<close> elements; and the records the address book holds for a list of peers.
\<close>

function batches :: "nat \<Rightarrow> 'a list \<Rightarrow> 'a list list" where
  "batches n xs = (if n = 0 \<or> xs = [] then [] else take n xs # batches n (drop n xs))"
  by pat_completeness auto
termination
  by (relation "measure (\<lambda>(n, xs). length xs)") auto

declare batches.simps [simp del]





section \<open>ChunkPipe\<close>

text \<open>
  Modelled from the spec: \<^verbatim>\<open>infinity.ChunkSize\<close> is declared in package \<^verbatim>\<open>infinity\<close>,
  which is not among the sources; the specification gives leaves of 4096 bytes.
\<close>

definition ChunkSize :: nat where
  "ChunkSize = 4096"

definition maxBufferSize :: nat where
  "maxBufferSize = ChunkSize * 2"

text \<open>
  The write end of the \<^verbatim>\<open>io.Pipe\<close> under the ChunkPipe: each \<^verbatim>\<open>Write\<close> hands its whole
  argument to the reader as one segment and returns its length; after \<^verbatim>\<open>Close\<close> a
  write fails with \<^verbatim>\<open>io.ErrClosedPipe\<close>.
\<close>

record pipe =
  delivered :: "byte list list"
  closed :: bool

definition pipe_Write :: "pipe \<Rightarrow> byte list \<Rightarrow> pipe \<times> nat \<times> error option" where
  "pipe_Write p seg =
     (if closed p then (p, 0, Some ErrClosedPipe)
      else (p\<lparr>delivered := delivered p @ [seg]\<rparr>, length seg, None))"

definition pipe_Close :: "pipe \<Rightarrow> pipe \<times> error option" where
  "pipe_Close p = (p\<lparr>closed := True\<rparr>, None)"

record ChunkPipe =
  writer :: pipe
  data :: "byte list"
  cursor :: nat

definition NewChunkPipe :: ChunkPipe where
  "NewChunkPipe = \<lparr>writer = \<lparr>delivered = [], closed = False\<rparr>,
                    data = replicate maxBufferSize 0, cursor = 0\<rparr>"

text \<open>
  Go's \<^verbatim>\<open>copy(dst[off:], src)\<close>: as many elements as both slices have are copied, the
  destination keeps its length, and the number copied is returned.
\<close>

definition go_copy :: "'a list \<Rightarrow> nat \<Rightarrow> 'a list \<Rightarrow> 'a list \<times> nat" where
  "go_copy dst off src =
     (let n = min (length dst - off) (length src)
      in (take off dst @ take n src @ drop (off + n) dst, n))"

text \<open>
  The loop of \<^verbatim>\<open>Write\<close>. It returns the pipe, the count \<^verbatim>\<open>nw\<close> and the error.
  Slicing beyond the buffer panics. A pass that copies nothing and flushes nothing would
  repeat forever, so the loop is a partial function and its returning is proved.
\<close>

partial_function (option) Write_loop ::
  "ChunkPipe \<Rightarrow> byte list \<Rightarrow> nat \<Rightarrow> (ChunkPipe \<times> nat \<times> error option) option" where
  "Write_loop c b nw =
     (if nw \<ge> length b then Some (c, nw, None)
      else if cursor c > length (data c) then Some (c, nw, Some ErrPanic)
      else
        (let (d1, copied) = go_copy (data c) (cursor c) (drop nw b);
             c1 = c\<lparr>data := d1, cursor := cursor c + copied\<rparr>;
             nw1 = nw + copied
         in if cursor c1 \<ge> ChunkSize then
              (if ChunkSize > length (data c1) then Some (c1, nw1, Some ErrPanic)
               else
                 (case pipe_Write (writer c1) (take ChunkSize (data c1)) of
                    (w, written, Some err) \<Rightarrow> Some (c1\<lparr>writer := w\<rparr>, nw1, Some err)
                  | (w, written, None) \<Rightarrow>
                      if ChunkSize \<noteq> written then Some (c1\<lparr>writer := w\<rparr>, nw1, Some ErrShortWrite)
                      else Write_loop
                             (c1\<lparr>writer := w, cursor := cursor c1 - ChunkSize,
                                 data := fst (go_copy (data c1) 0 (drop ChunkSize (data c1)))\<rparr>)
                             b nw1))
            else Write_loop c1 b nw1))"

declare Write_loop.simps [code]

definition ChunkPipe_Write :: "ChunkPipe \<Rightarrow> byte list \<Rightarrow> (ChunkPipe \<times> nat \<times> error option) option" where
  "ChunkPipe_Write c b = Write_loop c b 0"

definition ChunkPipe_Close :: "ChunkPipe \<Rightarrow> ChunkPipe \<times> error option" where
  "ChunkPipe_Close c =
     (if cursor c > 0 then
        (if cursor c > length (data c) then (c, Some ErrPanic)
         else
           (case pipe_Write (writer c) (take (cursor c) (data c)) of
              (w, written, Some err) \<Rightarrow> (c\<lparr>writer := w\<rparr>, Some err)
            | (w, written, None) \<Rightarrow>
                if cursor c \<noteq> written then (c\<lparr>writer := w\<rparr>, Some ErrShortWrite)
                else (case pipe_Close w of (w', err) \<Rightarrow> (c\<lparr>writer := w'\<rparr>, err))))
      else (case pipe_Close (writer c) of (w', err) \<Rightarrow> (c\<lparr>writer := w'\<rparr>, err)))"

text \<open>
  A sequence of \<^verbatim>\<open>Write\<close> calls: it stops at the first call that returns an error or
  does not return; otherwise every call must have reported all its bytes written.
\<close>

fun Write_all :: "ChunkPipe \<Rightarrow> byte list list \<Rightarrow> (ChunkPipe \<times> error option) option" where
  "Write_all c [] = Some (c, None)"
| "Write_all c (b # bs) =
     (case ChunkPipe_Write c b of
        None \<Rightarrow> None
      | Some (c', n, Some err) \<Rightarrow> Some (c', Some err)
      | Some (c', n, None) \<Rightarrow>
          if n \<noteq> length b then Some (c', Some ErrShortWrite) else Write_all c' bs)"

text \<open>The writes followed by \<^verbatim>\<open>Close\<close>, on a new ChunkPipe.\<close>

definition Write_all_Close :: "byte list list \<Rightarrow> (ChunkPipe \<times> error option) option" where
  "Write_all_Close bs =
     (case Write_all NewChunkPipe bs of
        None \<Rightarrow> None
      | Some (c, Some err) \<Rightarrow> Some (c, Some err)
      | Some (c, None) \<Rightarrow> Some (ChunkPipe_Close c))"

section \<open>Peer records: ParseAddress\<close>













section \<open>Localstore: getMulti\<close>

text \<open>\<^verbatim>\<open>shed.Item\<close>, with the fields the indexes of this development read and write.\<close>

record Item =
  Address :: "byte list"
  Data :: "byte list"
  AccessTimestamp :: int
  StoreTimestamp :: int
  PinCounter :: nat

text \<open>
  The indexes of the store, after the specification's store layout: the retrieval index
  (address to data and store timestamp), the access timestamps, the push index, the pin
  index (address to counter) and the GC index (access timestamp and address).
\<close>

record DB =
  retrievalDataIndex :: "address \<rightharpoonup> byte list \<times> int"
  retrievalAccessIndex :: "address \<rightharpoonup> int"
  pushIndex :: "(int \<times> address) set"
  pinIndex :: "address \<rightharpoonup> nat"
  gcIndex :: "(int \<times> address) set"

text \<open>
  Modelled from the spec: \<^verbatim>\<open>shed.Index.Fill\<close> is in package \<^verbatim>\<open>shed\<close>, which is not among
  the sources. It reads the entry of every item's address from the index into the item
  and fails with \<^verbatim>\<open>leveldb.ErrNotFound\<close> when one is missing, the error \<^verbatim>\<open>GetMulti\<close>
  turns into \<^verbatim>\<open>storage.ErrNotFound\<close>. It does not write to the index.
\<close>

fun retrievalDataIndex_Fill :: "DB \<Rightarrow> Item list \<Rightarrow> error + Item list" where
  "retrievalDataIndex_Fill db [] = Inr []"
| "retrievalDataIndex_Fill db (it # its) =
     (case retrievalDataIndex db (Address it) of
        None \<Rightarrow> Inl LeveldbErrNotFound
      | Some (d, ts) \<Rightarrow>
          (case retrievalDataIndex_Fill db its of
             Inl err \<Rightarrow> Inl err
           | Inr its' \<Rightarrow> Inr (it\<lparr>Data := d, StoreTimestamp := ts\<rparr> # its')))"

fun pinIndex_Fill :: "DB \<Rightarrow> Item list \<Rightarrow> error + Item list" where
  "pinIndex_Fill db [] = Inr []"
| "pinIndex_Fill db (it # its) =
     (case pinIndex db (Address it) of
        None \<Rightarrow> Inl LeveldbErrNotFound
      | Some n \<Rightarrow>
          (case pinIndex_Fill db its of
             Inl err \<Rightarrow> Inl err
           | Inr its' \<Rightarrow> Inr (it\<lparr>PinCounter := n\<rparr> # its')))"

text \<open>
  Modelled from the spec: \<^verbatim>\<open>updateGCItems\<close> is defined in a file of package
  \<^verbatim>\<open>localstore\<close> that is not among the sources. After the specification, a Request
  touches the access timestamp and updates the GC index: for every item the access
  timestamp becomes the current time and the item's GC index entry moves to that time.
\<close>

definition updateGC :: "int \<Rightarrow> Item \<Rightarrow> DB \<Rightarrow> DB" where
  "updateGC now it db =
     db\<lparr>retrievalAccessIndex := (retrievalAccessIndex db)(Address it \<mapsto> now),
        gcIndex := insert (now, Address it)
          (gcIndex db - (case retrievalAccessIndex db (Address it) of
                           None \<Rightarrow> {} | Some t \<Rightarrow> {(t, Address it)}))\<rparr>"

definition updateGCItems :: "int \<Rightarrow> Item list \<Rightarrow> DB \<Rightarrow> DB" where
  "updateGCItems now items db = fold (updateGC now) items db"

definition new_Item :: "address \<Rightarrow> Item" where
  "new_Item addr = \<lparr>Address = addr, Data = [], AccessTimestamp = 0, StoreTimestamp = 0,
                     PinCounter = 0\<rparr>"

text \<open>\<^verbatim>\<open>getMulti\<close>, at time \<open>now\<close>: the items and error it returns, and the store after it.\<close>

definition getMulti :: "DB \<Rightarrow> int \<Rightarrow> ModeGet \<Rightarrow> address list
    \<Rightarrow> (Item list option \<times> error option) \<times> DB" where
  "getMulti db now mode addrs =
     (let out = map new_Item addrs in
      case retrievalDataIndex_Fill db out of
        Inl err \<Rightarrow> ((None, Some err), db)
      | Inr out \<Rightarrow>
          (case mode of
             ModeGetRequest \<Rightarrow> ((Some out, None), updateGCItems now out db)
           | ModeGetPin \<Rightarrow>
               (case pinIndex_Fill db out of
                  Inl err \<Rightarrow> ((None, Some err), db)
                | Inr out \<Rightarrow> ((Some out, None), db))
           | ModeGetSync \<Rightarrow> ((Some out, None), db)
           | ModeGetLookup \<Rightarrow> ((Some out, None), db)
           | ModeGetOther \<Rightarrow> ((Some out, Some ErrInvalidMode), db)))"


record pinned_chunk =
  pc_address :: address
  pc_data :: "byte list"
  pc_pinCounter :: nat

definition GetMulti :: "DB \<Rightarrow> int \<Rightarrow> ModeGet \<Rightarrow> address list \<Rightarrow> (error + pinned_chunk list) \<times> DB" where
  "GetMulti db now mode addrs =
     (case getMulti db now mode addrs of
        ((out, Some err), db') \<Rightarrow>
          (if errors_Is err LeveldbErrNotFound then (Inl StorageErrNotFound, db')
           else (Inl err, db'))
      | ((None, None), db') \<Rightarrow> (Inr [], db')
      | ((Some out, None), db') \<Rightarrow>
          (Inr (map (\<lambda>ch. \<lparr>pc_address = Address ch, pc_data = Data ch,
                              pc_pinCounter = PinCounter ch\<rparr>) out), db'))"


section \<open>Kademlia: bins of peers, depth and saturation\<close>

definition nnLowWatermark :: nat where
  "nnLowWatermark = 2"


definition saturationPeers :: nat where
  "saturationPeers = 4"

definition overSaturationPeers :: nat where
  "overSaturationPeers = 16"

text \<open>
  Modelled from the spec: \<^verbatim>\<open>pslice.PSlice\<close> is in package \<^verbatim>\<open>kademlia/pslice\<close>, which is
  not among the sources. After the specification it is a sequence of sets of overlay
  addresses indexed by proximity order: here the list of bins, bin \<open>po\<close> at position
  \<open>po\<close>, each bin the list of its peers in the order they are visited. \<^verbatim>\<open>EachBin\<close> visits
  the peers closest bin first (highest proximity order first), \<^verbatim>\<open>EachBinRev\<close> farthest
  bin first; the callback answers \<^verbatim>\<open>(stop, jump_bin, err)\<close>: an error or a stop ends the
  walk, a jump skips the rest of the current bin. \<^verbatim>\<open>Length\<close> is the total count, and
  \<^verbatim>\<open>ShallowestEmpty\<close> gives the lowest bin without peers, or reports that no bin is
  empty. A proximity order is a \<^verbatim>\<open>uint8\<close>; there are at most 256 bins, so it is a
  natural number here.
\<close>

type_synonym PSlice = "address list list"

type_synonym 's EachPeerFunc = "address \<Rightarrow> nat \<Rightarrow> 's \<Rightarrow> (bool \<times> bool \<times> error option) \<times> 's"

definition pslice_New :: "nat \<Rightarrow> PSlice" where
  "pslice_New maxBins = replicate maxBins []"

fun each_in_bin :: "'s EachPeerFunc \<Rightarrow> nat \<Rightarrow> address list \<Rightarrow> 's \<Rightarrow> (bool \<times> error option) \<times> 's" where
  "each_in_bin pf po [] s = ((False, None), s)"
| "each_in_bin pf po (v # vs) s =
     (case pf v po s of
        ((stop, jump, Some err), s') \<Rightarrow> ((True, Some err), s')
      | ((stop, jump, None), s') \<Rightarrow>
          if stop then ((True, None), s')
          else if jump then ((False, None), s')
          else each_in_bin pf po vs s')"

fun each_bins :: "'s EachPeerFunc \<Rightarrow> (nat \<times> address list) list \<Rightarrow> 's \<Rightarrow> error option \<times> 's" where
  "each_bins pf [] s = (None, s)"
| "each_bins pf ((po, vs) # bs) s =
     (case each_in_bin pf po vs s of
        ((True, err), s') \<Rightarrow> (err, s')
      | ((False, err), s') \<Rightarrow> each_bins pf bs s')"

definition EachBin :: "'s EachPeerFunc \<Rightarrow> PSlice \<Rightarrow> 's \<Rightarrow> error option \<times> 's" where
  "EachBin pf ps s = each_bins pf (rev (enumerate 0 ps)) s"

definition EachBinRev :: "'s EachPeerFunc \<Rightarrow> PSlice \<Rightarrow> 's \<Rightarrow> error option \<times> 's" where
  "EachBinRev pf ps s = each_bins pf (enumerate 0 ps) s"

definition Length :: "PSlice \<Rightarrow> nat" where
  "Length ps = length (concat ps)"

fun shallowest_from :: "nat \<Rightarrow> PSlice \<Rightarrow> nat \<times> bool" where
  "shallowest_from i [] = (0, True)"
| "shallowest_from i (b # bs) = (if b = [] then (i, False) else shallowest_from (Suc i) bs)"

definition ShallowestEmpty :: "PSlice \<Rightarrow> nat \<times> bool" where
  "ShallowestEmpty ps = shallowest_from 0 ps"

definition Exists :: "PSlice \<Rightarrow> address \<Rightarrow> bool" where
  "Exists ps a = (a \<in> set (concat ps))"

definition Add :: "PSlice \<Rightarrow> address \<Rightarrow> nat \<Rightarrow> PSlice" where
  "Add ps a po = (if Exists ps a \<or> po \<ge> length ps then ps else ps[po := ps ! po @ [a]])"

definition Remove :: "PSlice \<Rightarrow> address \<Rightarrow> nat \<Rightarrow> PSlice" where
  "Remove ps a po = (if po \<ge> length ps then ps else ps[po := removeAll a (ps ! po)])"

text \<open>
  \<^verbatim>\<open>recalcDepth\<close>. The callback of its walk counts the peers in \<^verbatim>\<open>peersCtr\<close> and, at the
  peer that brings the count to the watermark, records the bin in \<^verbatim>\<open>candidate\<close> and
  stops; both variables are the state of the walk.
\<close>

definition recalcDepth_walk :: "(nat \<times> nat) EachPeerFunc" where
  "recalcDepth_walk v po s =
     (case s of (peersCtr, candidate) \<Rightarrow>
        let peersCtr = peersCtr + 1 in
        if peersCtr \<ge> nnLowWatermark then ((True, False, None), (peersCtr, po))
        else ((False, False, None), (peersCtr, candidate)))"

definition recalcDepth :: "PSlice \<Rightarrow> nat" where
  "recalcDepth peers =
     (if Length peers \<le> nnLowWatermark then 0
      else
        (case ShallowestEmpty peers of (shallowestEmpty, noEmptyBins) \<Rightarrow>
         case EachBin recalcDepth_walk peers (0, 0) of (err, (peersCtr, candidate)) \<Rightarrow>
           if noEmptyBins \<or> shallowestEmpty > candidate then candidate
           else shallowestEmpty))"

definition binSaturated_walk :: "nat \<Rightarrow> nat EachPeerFunc" where
  "binSaturated_walk bin v po sz = ((False, False, None), if po = bin then sz + 1 else sz)"

definition binSaturated :: "nat \<Rightarrow> PSlice \<Rightarrow> PSlice \<Rightarrow> bool \<times> bool" where
  "binSaturated bin peers connected =
     (let potentialDepth = recalcDepth peers in
      if bin \<ge> potentialDepth then (False, False)
      else
        (case EachBin (binSaturated_walk bin) connected 0 of (err, sz) \<Rightarrow>
           (sz \<ge> saturationPeers, sz \<ge> overSaturationPeers)))"

text \<open>
  The specification's words for the depth. The peers with their proximity orders in the
  order of a closest-bin-first walk; the lowest proximity order with zero peers, or the
  number of bins (\<^verbatim>\<open>MaxPO + 1\<close>) when no bin is empty; the proximity order of the peer at
  which the cumulative count first reaches the watermark; and the depth: 0 with fewer
  peers than the watermark, else the smaller of the two.
\<close>

definition walk_closest_first :: "PSlice \<Rightarrow> (address \<times> nat) list" where
  "walk_closest_first ps = concat (map (\<lambda>(po, vs). map (\<lambda>v. (v, po)) vs) (rev (enumerate 0 ps)))"

definition shallowest_empty :: "PSlice \<Rightarrow> nat" where
  "shallowest_empty ps = length (takeWhile (\<lambda>b. b \<noteq> []) ps)"

definition candidate :: "PSlice \<Rightarrow> nat" where
  "candidate ps = snd (walk_closest_first ps ! (nnLowWatermark - 1))"

definition depth_spec :: "PSlice \<Rightarrow> nat" where
  "depth_spec ps =
     (if length (walk_closest_first ps) < nnLowWatermark then 0
      else min (shallowest_empty ps) (candidate ps))"

text \<open>The number of peers of a bin.\<close>

definition peers_in_bin :: "PSlice \<Rightarrow> nat \<Rightarrow> nat" where
  "peers_in_bin ps bin = (if bin < length ps then length (ps ! bin) else 0)"

text \<open>
  A walk over a list of peers paired with their bins, for callbacks that never ask to
  jump over a bin; the walks of this development are related to it.
\<close>

fun each_flat :: "'s EachPeerFunc \<Rightarrow> (address \<times> nat) list \<Rightarrow> 's \<Rightarrow> error option \<times> 's" where
  "each_flat pf [] s = (None, s)"
| "each_flat pf ((v, po) # r) s =
     (case pf v po s of
        ((stop, jump, Some err), s') \<Rightarrow> (Some err, s')
      | ((stop, jump, None), s') \<Rightarrow> if stop then (None, s') else each_flat pf r s')"

definition flat_bins :: "(nat \<times> address list) list \<Rightarrow> (address \<times> nat) list" where
  "flat_bins bs = concat (map (\<lambda>(po, vs). map (\<lambda>v. (v, po)) vs) bs)"

text \<open>Concrete bins around the base address of 32 zero bytes, 16 bins each.\<close>

definition ex_connected :: PSlice where
  "ex_connected = [addr32 0x80, addr32 0x81, addr32 0x82, addr32 0x83] # replicate 15 []"

definition ex_known :: PSlice where
  "ex_known = [addr32 0x80, addr32 0x81, addr32 0x82, addr32 0x83] # [addr32 0x40]
               # [addr32 0x20, addr32 0x21] # replicate 13 []"

section \<open>Kademlia: the node, closest peer and connecting\<close>

text \<open>
  Modelled from the spec: \<^verbatim>\<open>infinity.MaxPO\<close>, \<^verbatim>\<open>infinity.Proximity\<close> and
  \<^verbatim>\<open>infinity.DistanceCmp\<close> are in package \<^verbatim>\<open>infinity\<close>, which is not among the sources.
  After the specification the proximity of two addresses is the count of their matching
  most significant bits, capped at \<^verbatim>\<open>MaxPO\<close> (15, with 16 bins, in the tests of the
  repository); the distance is the bitwise XOR read as an unsigned big-endian integer, and
  \<^verbatim>\<open>DistanceCmp\<close> compares the distances of two addresses to a target, failing on
  addresses of different lengths. Its sign follows the callers in \<^verbatim>\<open>kademlia.go\<close>:
  \<^verbatim>\<open>DistanceCmp(addr, closest, peer)\<close> is \<open>-1\<close> when \<^verbatim>\<open>peer\<close> is closer to \<^verbatim>\<open>addr\<close> than
  \<^verbatim>\<open>closest\<close>, and \<open>1\<close> when \<^verbatim>\<open>closest\<close> is closer.
\<close>

definition MaxPO :: nat where
  "MaxPO = 15"

definition MaxBins :: nat where
  "MaxBins = MaxPO + 1"

definition byte_bits :: "byte \<Rightarrow> bool list" where
  "byte_bits b = map (\<lambda>i. bit b (7 - i)) [0..<8]"

definition address_bits :: "address \<Rightarrow> bool list" where
  "address_bits a = concat (map byte_bits a)"

definition matching_bits :: "address \<Rightarrow> address \<Rightarrow> nat" where
  "matching_bits one other =
     length (takeWhile (\<lambda>(x, y). x = y) (zip (address_bits one) (address_bits other)))"

definition Proximity :: "address \<Rightarrow> address \<Rightarrow> nat" where
  "Proximity one other = min MaxPO (matching_bits one other)"

definition be_nat :: "byte list \<Rightarrow> nat" where
  "be_nat bs = foldl (\<lambda>acc b. acc * 256 + unat b) 0 bs"

definition Distance :: "address \<Rightarrow> address \<Rightarrow> nat" where
  "Distance x y = be_nat (map (\<lambda>(a, b). a XOR b) (zip x y))"

definition DistanceCmp :: "address \<Rightarrow> address \<Rightarrow> address \<Rightarrow> error + int" where
  "DistanceCmp a x y =
     (if length a \<noteq> length x \<or> length a \<noteq> length y then Inl ErrAddressLength
      else Inr (if Distance a y < Distance a x then - 1
                else if Distance a y = Distance a x then 0 else 1))"

text \<open>Durations and times are counted in nanoseconds, as \<^verbatim>\<open>time.Duration\<close> is.\<close>

definition timeToRetry :: int where
  "timeToRetry = 60 * 1000000000"

definition shortRetry :: int where
  "shortRetry = 30 * 1000000000"

record retryInfo =
  tryAfter :: int
  failedAttempts :: int

text \<open>
  The state of \<^verbatim>\<open>Kad\<close> that the operations below read and write. The address book is the
  map from overlay to peer record it persists; the retry map \<^verbatim>\<open>waitNext\<close> is keyed by
  the peer's address (in the source by its hex string).
\<close>

record Kad =
  base :: address
  connectedPeers :: PSlice
  knownPeers :: PSlice
  depth :: nat
  waitNext :: "address \<rightharpoonup> retryInfo"
  addressBook :: "address \<rightharpoonup> ifi_Address"

definition NeighborhoodDepth :: "Kad \<Rightarrow> nat" where
  "NeighborhoodDepth k = depth k"

text \<open>\<^verbatim>\<open>Disconnected\<close> at time \<open>now\<close> (the wake-up signals it sends are not part of the state).\<close>

definition Disconnected :: "Kad \<Rightarrow> int \<Rightarrow> address \<Rightarrow> Kad" where
  "Disconnected k now peer =
     (let po = Proximity (base k) peer;
          k = k\<lparr>connectedPeers := Remove (connectedPeers k) peer po\<rparr>;
          k = k\<lparr>waitNext := (waitNext k)(peer \<mapsto> \<lparr>tryAfter = now + timeToRetry, failedAttempts = 0\<rparr>)\<rparr>
      in k\<lparr>depth := recalcDepth (connectedPeers k)\<rparr>)"

text \<open>
  \<^verbatim>\<open>connected\<close>, given what \<^verbatim>\<open>announce\<close> returned: a failed announce returns its error
  before anything is changed.
\<close>

definition connected :: "Kad \<Rightarrow> error option \<Rightarrow> address \<Rightarrow> error option \<times> Kad" where
  "connected k announce_err addr =
     (case announce_err of
        Some err \<Rightarrow> (Some err, k)
      | None \<Rightarrow>
          (let po = Proximity (base k) addr;
               k = k\<lparr>knownPeers := Add (knownPeers k) addr po\<rparr>;
               k = k\<lparr>connectedPeers := Add (connectedPeers k) addr po\<rparr>;
               k = k\<lparr>waitNext := (waitNext k)(addr := None)\<rparr>
           in (None, k\<lparr>depth := recalcDepth (connectedPeers k)\<rparr>)))"

fun isIn :: "address \<Rightarrow> address list \<Rightarrow> bool" where
  "isIn a [] = False"
| "isIn a (v # addresses) = (if v = a then True else isIn a addresses)"

text \<open>
  The callback of the walk in \<^verbatim>\<open>ClosestPeer\<close>; its state is \<^verbatim>\<open>peersToDisconnect\<close> and
  \<^verbatim>\<open>closest\<close>. \<open>peers\<close> is what \<^verbatim>\<open>k.p2p.Peers()\<close> returned.
\<close>

definition ClosestPeer_walk ::
  "address list \<Rightarrow> address list \<Rightarrow> address \<Rightarrow> (address list \<times> address) EachPeerFunc" where
  "ClosestPeer_walk skipPeers peers addr peer po s =
     (case s of (peersToDisconnect, closest) \<Rightarrow>
        if isIn peer skipPeers then ((False, False, None), s)
        else if \<not> isIn peer peers then ((False, False, None), (peersToDisconnect @ [peer], closest))
        else
          (case DistanceCmp addr closest peer of
             Inl err \<Rightarrow> ((False, False, Some err), s)
           | Inr dcmp \<Rightarrow>
               ((False, False, None), (peersToDisconnect, if dcmp = - 1 then peer else closest))))"

definition ClosestPeer :: "Kad \<Rightarrow> address list \<Rightarrow> int \<Rightarrow> address \<Rightarrow> address list
    \<Rightarrow> (error + address) \<times> Kad" where
  "ClosestPeer k peers now addr skipPeers =
     (if Length (connectedPeers k) = 0 then (Inl TopologyErrNotFound, k)
      else
        (case EachBinRev (ClosestPeer_walk skipPeers peers addr) (connectedPeers k) ([], base k) of
           (Some err, s) \<Rightarrow> (Inl err, k)
         | (None, (peersToDisconnect, closest)) \<Rightarrow>
             (let k' = fold (\<lambda>v k. Disconnected k now v) peersToDisconnect k
              in if closest = base k then (Inl TopologyErrWantSelf, k') else (Inr closest, k'))))"

text \<open>
  The peers \<^verbatim>\<open>ClosestPeer\<close> chooses among: the connected peers, farthest bin first, that
  are not skipped and that the p2p service lists.
\<close>

definition walk_farthest_first :: "PSlice \<Rightarrow> (address \<times> nat) list" where
  "walk_farthest_first ps = flat_bins (enumerate 0 ps)"

definition eligible :: "Kad \<Rightarrow> address list \<Rightarrow> address list \<Rightarrow> address list" where
  "eligible k peers skipPeers =
     filter (\<lambda>p. \<not> isIn p skipPeers \<and> isIn p peers) (map fst (walk_farthest_first (connectedPeers k)))"

text \<open>
  The peers a call of \<^verbatim>\<open>ClosestPeer\<close> collects in \<^verbatim>\<open>peersToDisconnect\<close>: the connected
  peers, in the order of the walk, that are not skipped and that the p2p service does not
  list.
\<close>

definition peers_to_disconnect :: "Kad \<Rightarrow> address list \<Rightarrow> address list \<Rightarrow> address list" where
  "peers_to_disconnect k peers skipPeers =
     filter (\<lambda>p. \<not> isIn p skipPeers \<and> \<not> isIn p peers)
       (map fst (walk_farthest_first (connectedPeers k)))"

text \<open>
  Every peer is in the bin of its proximity order to the base address, which is where
  \<^verbatim>\<open>connected\<close> and \<^verbatim>\<open>manage\<close> add it and where \<^verbatim>\<open>Disconnected\<close> looks for it.
\<close>

definition bins_by_proximity :: "address \<Rightarrow> PSlice \<Rightarrow> bool" where
  "bins_by_proximity b ps =
     list_all (\<lambda>(po, vs). list_all (\<lambda>p. Proximity b p = po) vs) (enumerate 0 ps)"





text \<open>Concrete nodes with the base address of 32 zero bytes.\<close>

definition ex_kad :: Kad where
  "ex_kad = \<lparr>base = addr32 0,
             connectedPeers = [addr32 0x80] # [addr32 0x40, addr32 0x60] # replicate 14 [],
             knownPeers = [addr32 0x80] # [addr32 0x40, addr32 0x60] # replicate 14 [],
             depth = 0,
             waitNext = Map.empty,
             addressBook = Map.empty\<rparr>"


section \<open>Kademlia: the pseudo-addresses of balanced dialing\<close>

text \<open>\<^verbatim>\<open>bits.Reverse8\<close> and the three bit helpers of \<^verbatim>\<open>kademlia.go\<close>, on \<^verbatim>\<open>uint8\<close>.\<close>

definition Reverse8 :: "byte \<Rightarrow> byte" where
  "Reverse8 b = word_reverse b"

definition clearBit :: "byte \<Rightarrow> nat \<Rightarrow> byte" where
  "clearBit n pos = (let mask = NOT (push_bit pos 1) in n AND mask)"

definition setBit :: "byte \<Rightarrow> nat \<Rightarrow> byte" where
  "setBit n pos = n OR push_bit pos 1"

definition hasBit :: "byte \<Rightarrow> nat \<Rightarrow> bool" where
  "hasBit n pos = (let val = n AND push_bit pos 1 in val > 0)"

text \<open>
  The two assignments the loops of \<^verbatim>\<open>generateCommonBinPrefixes\<close> make to bit \<open>l\<close> of
  the byte slice, counted from the most significant bit of the first byte:
  \<^verbatim>\<open>b[l/8] = Reverse8(setBit(Reverse8(b[l/8]), l%8))\<close> and the same with \<^verbatim>\<open>clearBit\<close>.
  An index beyond the slice panics.
\<close>

definition set_at :: "byte list \<Rightarrow> nat \<Rightarrow> error + byte list" where
  "set_at bs l =
     (let index = l div 8; pos = l mod 8
      in if index \<ge> length bs then Inl ErrPanic
         else Inr (bs[index := Reverse8 (setBit (Reverse8 (bs ! index)) pos)]))"

definition clear_at :: "byte list \<Rightarrow> nat \<Rightarrow> error + byte list" where
  "clear_at bs l =
     (let index = l div 8; pos = l mod 8
      in if index \<ge> length bs then Inl ErrPanic
         else Inr (bs[index := Reverse8 (clearBit (Reverse8 (bs ! index)) pos)]))"

text \<open>Flip the first bit for the bin.\<close>

definition flip_at :: "byte list \<Rightarrow> nat \<Rightarrow> error + byte list" where
  "flip_at bs i =
     (let indexByte = i div 8; posBit = i mod 8
      in if indexByte \<ge> length bs then Inl ErrPanic
         else if hasBit (Reverse8 (bs ! indexByte)) posBit then clear_at bs i
         else set_at bs i)"

text \<open>
  The conversion \<^verbatim>\<open>uint8(bitSuffixPos)\<close> of an \<^verbatim>\<open>int\<close>, and the loop that sets the
  pseudo suffix: for every \<open>l\<close> bit \<open>l\<close> is set or cleared after bit \<^verbatim>\<open>bitSuffixPos\<close> of
  the suffix byte, and \<^verbatim>\<open>bitSuffixPos\<close> is decremented.
\<close>

definition uint8_of_int :: "int \<Rightarrow> nat" where
  "uint8_of_int x = nat (x mod 256)"

fun suffix_loop :: "byte list \<Rightarrow> byte \<Rightarrow> int \<Rightarrow> nat list \<Rightarrow> error + byte list" where
  "suffix_loop bs sfx bitSuffixPos [] = Inr bs"
| "suffix_loop bs sfx bitSuffixPos (l # ls) =
     (case (if hasBit sfx (uint8_of_int bitSuffixPos) then set_at bs l else clear_at bs l) of
        Inl err \<Rightarrow> Inl err
      | Inr bs' \<Rightarrow> suffix_loop bs' sfx (bitSuffixPos - 1) ls)"

text \<open>The loop that clears the rest of the bits.\<close>

fun clear_loop :: "byte list \<Rightarrow> nat list \<Rightarrow> error + byte list" where
  "clear_loop bs [] = Inr bs"
| "clear_loop bs (l # ls) =
     (case clear_at bs l of Inl err \<Rightarrow> Inl err | Inr bs' \<Rightarrow> clear_loop bs' ls)"

text \<open>
  The body of the last pair of loops for bin \<open>i\<close> and index \<open>j\<close>, on the copy of the base
  address that the loops before it stored in \<^verbatim>\<open>binPrefixes[i][j]\<close>. The suffix byte is
  \<^verbatim>\<open>bitSufixes[j] = uint8(j)\<close>.
  Modelled from the spec: \<^verbatim>\<open>infinity.NewAddress\<close> and \<^verbatim>\<open>Address.Bytes\<close> are not among the
  sources; the address keeps the slice it is made from and \<^verbatim>\<open>Bytes\<close> returns that
  slice, so that writing to it changes the pseudo-address, as the specification has it.
\<close>

definition pseudoAddr :: "nat \<Rightarrow> address \<Rightarrow> nat \<Rightarrow> nat \<Rightarrow> error + address" where
  "pseudoAddr bitSuffixLength base_addr i j =
     (let pseudoAddrBytes = base_addr in
      case flip_at pseudoAddrBytes i of
        Inl err \<Rightarrow> Inl err
      | Inr bs \<Rightarrow>
          (case suffix_loop bs (of_nat j) (int bitSuffixLength - 1)
                  [i + 1 ..< i + bitSuffixLength + 1] of
             Inl err \<Rightarrow> Inl err
           | Inr bs \<Rightarrow> clear_loop bs [i + bitSuffixLength + 1 ..< length bs * 8]))"

text \<open>A panic anywhere ends the whole computation.\<close>

fun all_or_error :: "(error + 'a) list \<Rightarrow> error + 'a list" where
  "all_or_error [] = Inr []"
| "all_or_error (x # xs) =
     (case x of
        Inl err \<Rightarrow> Inl err
      | Inr v \<Rightarrow> (case all_or_error xs of Inl err \<Rightarrow> Inl err | Inr vs \<Rightarrow> Inr (v # vs)))"

definition generateCommonBinPrefixes :: "nat \<Rightarrow> address \<Rightarrow> error + address list list" where
  "generateCommonBinPrefixes bitSuffixLength base_addr =
     (let bitCombinationsCount = 2 ^ bitSuffixLength
      in all_or_error
           (map (\<lambda>i. all_or_error
                   (map (\<lambda>j. pseudoAddr bitSuffixLength base_addr i j) [0 ..< bitCombinationsCount]))
              [0 ..< MaxBins]))"

text \<open>
  The specification's words: bit \<open>p\<close> of an address, counted from its most significant
  bit, and bit \<open>p\<close> of the pseudo-address of bin \<open>i\<close> and index \<open>j\<close>: the base address's
  bit before \<open>i\<close>, the flipped bit at \<open>i\<close>, the binary encoding of \<open>j\<close> in the next
  \<open>bitSuffixLength\<close> bits, and zero after them.
\<close>

definition addr_bit :: "address \<Rightarrow> nat \<Rightarrow> bool" where
  "addr_bit a p = bit (a ! (p div 8)) (7 - p mod 8)"

definition pseudo_address_bit_spec :: "address \<Rightarrow> nat \<Rightarrow> nat \<Rightarrow> nat \<Rightarrow> nat \<Rightarrow> bool" where
  "pseudo_address_bit_spec base_addr bitSuffixLength i j p =
     (if p < i then addr_bit base_addr p
      else if p = i then \<not> addr_bit base_addr i
      else if p \<le> i + bitSuffixLength then bit j (i + bitSuffixLength - p)
      else False)"

section \<open>Netstore: results\<close>

text \<open>
  C3, as stated, requires \<^verbatim>\<open>NotFound\<close> whenever the local store misses, retrieval fails
  and no recovery is scheduled. The code returns the retrieval collaborator's own error:
  here retrieval fails with a deadline error, no targets and no callback are present, and
  \<^verbatim>\<open>Get\<close> returns that deadline error, which is not \<^verbatim>\<open>NotFound\<close>.
\<close>

theorem netstore_Get_not_always_NotFound:
  "Storer_Get store_miss ModeGetRequest [1, 2, 3] = Inl StorageErrNotFound
   \<and> retrieval store_miss [1, 2, 3] = Inl (External ''context deadline exceeded'')
   \<and> fst (netstore_Get store_miss \<lparr>ctx_targets = None\<rparr> ModeGetRequest [1, 2, 3])
       = Inl (External ''context deadline exceeded'')
   \<and> fst (netstore_Get store_miss \<lparr>ctx_targets = None\<rparr> ModeGetRequest [1, 2, 3])
       \<noteq> Inl StorageErrNotFound"
  by (simp add: netstore_Get_def store_miss_def)

text \<open>
  C3 (amended): a local hit is returned unchanged; on a local \<^verbatim>\<open>NotFound\<close> retrieval is
  invoked; a retrieved chunk is put with Request mode and returned when the put succeeds
  (a failing put is returned wrapped); when retrieval fails and the context has targets
  and a callback is registered, the callback is scheduled exactly once with
  \<^verbatim>\<open>(addr, targets)\<close> and \<^verbatim>\<open>RecoveryAttempt\<close> (distinct from \<^verbatim>\<open>NotFound\<close>) is returned;
  otherwise the retrieval error is returned unchanged, so \<^verbatim>\<open>NotFound\<close> exactly when
  retrieval reported \<^verbatim>\<open>NotFound\<close>.
\<close>

theorem netstore_Get_behaviour:
  "(Storer_Get s mode addr = Inr ch \<longrightarrow>
      netstore_Get s c mode addr = (Inr ch, [EvStorerGet mode addr]))
   \<and> (Storer_Get s mode addr = Inl StorageErrNotFound \<and> retrieval s addr = Inr ch
        \<and> Storer_Put s ModePutRequest ch = None \<longrightarrow>
      netstore_Get s c mode addr =
        (Inr ch, [EvStorerGet mode addr, EvRetrieveChunk addr, EvStorerPut ModePutRequest ch]))
   \<and> (Storer_Get s mode addr = Inl StorageErrNotFound \<and> retrieval s addr = Inr ch
        \<and> Storer_Put s ModePutRequest ch = Some perr \<longrightarrow>
      netstore_Get s c mode addr =
        (Inl (Wrap ''netstore retrieve put'' perr),
         [EvStorerGet mode addr, EvRetrieveChunk addr, EvStorerPut ModePutRequest ch]))
   \<and> (Storer_Get s mode addr = Inl StorageErrNotFound \<and> retrieval s addr = Inl rerr
        \<and> ctx_targets c = Some ts \<and> recoveryCallback s = Some cb \<longrightarrow>
      netstore_Get s c mode addr =
        (Inl ErrRecoveryAttempt, [EvStorerGet mode addr, EvRetrieveChunk addr, EvGo cb addr ts]))
   \<and> (Storer_Get s mode addr = Inl StorageErrNotFound \<and> retrieval s addr = Inl rerr
        \<and> (ctx_targets c = None \<or> recoveryCallback s = None) \<longrightarrow>
      netstore_Get s c mode addr =
        (Inl rerr, [EvStorerGet mode addr, EvRetrieveChunk addr]))
   \<and> ErrRecoveryAttempt \<noteq> StorageErrNotFound"
  by (auto simp: netstore_Get_def split: option.splits)

theorem netstore_Get_behaviour_witness:
  "netstore_Get store_local \<lparr>ctx_targets = None\<rparr> ModeGetSync [9] = (Inr ex_chunk, [EvStorerGet ModeGetSync [9]])
   \<and> netstore_Get store_remote \<lparr>ctx_targets = None\<rparr> ModeGetRequest [9] =
        (Inr ex_chunk, [EvStorerGet ModeGetRequest [9], EvRetrieveChunk [9], EvStorerPut ModePutRequest ex_chunk])
   \<and> netstore_Get store_remote_putfail \<lparr>ctx_targets = None\<rparr> ModeGetRequest [9] =
        (Inl (Wrap ''netstore retrieve put'' (External ''disk full'')),
         [EvStorerGet ModeGetRequest [9], EvRetrieveChunk [9], EvStorerPut ModePutRequest ex_chunk])
   \<and> netstore_Get store_miss_cb \<lparr>ctx_targets = Some [[5]]\<rparr> ModeGetRequest [9] =
        (Inl ErrRecoveryAttempt, [EvStorerGet ModeGetRequest [9], EvRetrieveChunk [9], EvGo (Callback 0) [9] [[5]]])
   \<and> netstore_Get store_miss_cb \<lparr>ctx_targets = None\<rparr> ModeGetRequest [9] =
        (Inl (External ''context deadline exceeded''), [EvStorerGet ModeGetRequest [9], EvRetrieveChunk [9]])"
  using netstore_Get_behaviour [of store_local ModeGetSync "[9]" ex_chunk "\<lparr>ctx_targets = None\<rparr>"]
    netstore_Get_behaviour [of store_remote ModeGetRequest "[9]" ex_chunk "\<lparr>ctx_targets = None\<rparr>"]
    netstore_Get_behaviour [of store_remote_putfail ModeGetRequest "[9]" ex_chunk "\<lparr>ctx_targets = None\<rparr>"
      "External ''disk full''"]
    netstore_Get_behaviour [of store_miss_cb ModeGetRequest "[9]" _ "\<lparr>ctx_targets = Some [[5]]\<rparr>" _
      "External ''context deadline exceeded''" "[[5]]" "Callback 0"]
    netstore_Get_behaviour [of store_miss_cb ModeGetRequest "[9]" _ "\<lparr>ctx_targets = None\<rparr>" _
      "External ''context deadline exceeded''"]
  by (simp add: store_local_def store_remote_def store_remote_putfail_def store_miss_cb_def
      store_miss_def)

section \<open>Hive: results\<close>





lemma peersRequest_length:
  "peersRequest ab ps acc = Inr msg \<Longrightarrow> length msg \<le> length acc + length ps"
  by (induction ps arbitrary: acc) (fastforce split: sum.splits if_splits)+

lemma batches_min: "0 < m \<Longrightarrow> length xs \<le> m \<Longrightarrow> xs \<noteq> [] \<Longrightarrow> batches m xs = [xs]"
  by (subst batches.simps, simp, subst batches.simps, simp)











section \<open>ChunkPipe: results\<close>

text \<open>
  The invariant between calls: the buffer keeps its size, the cursor is at most one chunk,
  the pipe is open and every segment delivered so far is a full chunk.
\<close>

lemma go_copy_length: "off \<le> length dst \<Longrightarrow> length (fst (go_copy dst off src)) = length dst"
  by (auto simp: go_copy_def Let_def min_def)

lemma go_copy_take:
  "off \<le> length dst \<Longrightarrow> go_copy dst off src = (d, n) \<Longrightarrow>
     take (off + n) d = take off dst @ take n src \<and> n = min (length dst - off) (length src)"
  by (auto simp: go_copy_def Let_def min_def)

lemma Write_loop_inv:
  assumes "length (data c) = 2 * ChunkSize" "cursor c \<le> ChunkSize" "\<not> closed (writer c)"
    "list_all (\<lambda>s. length s = ChunkSize) (delivered (writer c))" "nw \<le> length b"
  shows "\<exists>c'. Write_loop c b nw = Some (c', length b, None)
      \<and> length (data c') = 2 * ChunkSize \<and> cursor c' \<le> ChunkSize \<and> \<not> closed (writer c')
      \<and> list_all (\<lambda>s. length s = ChunkSize) (delivered (writer c'))
      \<and> concat (delivered (writer c')) @ take (cursor c') (data c')
          = concat (delivered (writer c)) @ take (cursor c) (data c) @ drop nw b"
  using assms
proof (induction "length b - nw" arbitrary: c nw rule: less_induct)
  case less
  have cs: "0 < ChunkSize" by (simp add: ChunkSize_def)
  show ?case
  proof (cases "nw \<ge> length b")
    case True
    then show ?thesis using less.prems by (subst Write_loop.simps) simp
  next
    case False
    obtain d1 copied where gc: "go_copy (data c) (cursor c) (drop nw b) = (d1, copied)"
      by (cases "go_copy (data c) (cursor c) (drop nw b)")
    have le: "cursor c \<le> length (data c)" using less.prems by simp
    note both = go_copy_take[OF le gc]
    have tk: "take (cursor c + copied) d1 = take (cursor c) (data c) @ take copied (drop nw b)"
      using both by (rule conjunct1)
    have cp: "copied = min (length (data c) - cursor c) (length b - nw)"
      using conjunct2[OF both] by simp
    have cpos: "0 < copied" using cp False less.prems cs by simp
    have cle: "cursor c + copied \<le> 2 * ChunkSize" using cp less.prems by simp
    have ld1: "length d1 = 2 * ChunkSize"
      using go_copy_length[OF le, of "drop nw b"] gc less.prems by simp
    define c1 where "c1 = c\<lparr>data := d1, cursor := cursor c + copied\<rparr>"
    define nw1 where "nw1 = nw + copied"
    have nw1: "nw1 \<le> length b" "length b - nw1 < length b - nw"
      using cp cpos False by (auto simp: nw1_def)
    have dr: "drop nw b = take copied (drop nw b) @ drop nw1 b"
    proof -
      have "drop nw1 b = drop copied (drop nw b)" by (simp add: nw1_def add.commute)
      then show ?thesis by (simp only: append_take_drop_id)
    qed
    show ?thesis
    proof (cases "cursor c1 \<ge> ChunkSize")
      case small: False
      have step: "Write_loop c b nw = Write_loop c1 b nw1"
        using False le gc small
        by (subst Write_loop.simps) (simp add: c1_def nw1_def Let_def)
      have "\<exists>c'. Write_loop c1 b nw1 = Some (c', length b, None)
        \<and> length (data c') = 2 * ChunkSize \<and> cursor c' \<le> ChunkSize \<and> \<not> closed (writer c')
        \<and> list_all (\<lambda>s. length s = ChunkSize) (delivered (writer c'))
        \<and> concat (delivered (writer c')) @ take (cursor c') (data c')
            = concat (delivered (writer c1)) @ take (cursor c1) (data c1) @ drop nw1 b"
        using small less.prems ld1 nw1
        by (intro less.hyps) (simp_all add: c1_def)
      moreover have "take (cursor c1) (data c1) @ drop nw1 b = take (cursor c) (data c) @ drop nw b"
        using tk dr by (simp add: c1_def)
      ultimately show ?thesis using step by (auto simp: c1_def)
    next
      case big: True
      define seg where "seg = take ChunkSize (data c1)"
      define w where "w = (writer c1)\<lparr>delivered := delivered (writer c1) @ [seg]\<rparr>"
      define c2 where "c2 = c1\<lparr>writer := w, cursor := cursor c1 - ChunkSize,
                                 data := fst (go_copy (data c1) 0 (drop ChunkSize (data c1)))\<rparr>"
      have pw: "pipe_Write (writer c1) seg = (w, ChunkSize, None)"
        using less.prems ld1 by (simp add: pipe_Write_def w_def c1_def seg_def)
      have step: "Write_loop c b nw = Write_loop c2 b nw1"
        using False le gc big pw ld1
        by (subst Write_loop.simps) (simp add: c1_def nw1_def Let_def c2_def seg_def)
      have d2: "data c2 = drop ChunkSize d1 @ drop ChunkSize d1"
        using ld1 by (simp add: c2_def c1_def go_copy_def Let_def)
      have "\<exists>c'. Write_loop c2 b nw1 = Some (c', length b, None)
        \<and> length (data c') = 2 * ChunkSize \<and> cursor c' \<le> ChunkSize \<and> \<not> closed (writer c')
        \<and> list_all (\<lambda>s. length s = ChunkSize) (delivered (writer c'))
        \<and> concat (delivered (writer c')) @ take (cursor c') (data c')
            = concat (delivered (writer c2)) @ take (cursor c2) (data c2) @ drop nw1 b"
        using big less.prems ld1 nw1 cle d2
        by (intro less.hyps) (simp_all add: c2_def c1_def w_def seg_def)
      moreover have X: "concat (delivered (writer c2)) @ take (cursor c2) (data c2)
          = concat (delivered (writer c)) @ take (cursor c) (data c) @ take copied (drop nw b)"
      proof -
        have "take (cursor c2) (data c2) = take (cursor c1 - ChunkSize) (drop ChunkSize d1)"
          using d2 ld1 cle by (simp add: c2_def c1_def)
        also have "\<dots> = drop ChunkSize (take (cursor c1) d1)"
          by (simp add: drop_take)
        finally have a: "take (cursor c2) (data c2) = drop ChunkSize (take (cursor c1) d1)" .
        have "seg = take ChunkSize (take (cursor c1) d1)"
          using big by (simp add: seg_def c1_def min_def)
        then have "seg @ take (cursor c2) (data c2) = take (cursor c1) d1"
          unfolding a by (simp only: append_take_drop_id)
        then show ?thesis using tk by (simp add: c2_def w_def c1_def)
      qed
      moreover have "concat (delivered (writer c2)) @ take (cursor c2) (data c2) @ drop nw1 b
          = concat (delivered (writer c)) @ take (cursor c) (data c) @ drop nw b"
      proof -
        have "concat (delivered (writer c2)) @ take (cursor c2) (data c2) @ drop nw1 b
            = (concat (delivered (writer c2)) @ take (cursor c2) (data c2)) @ drop nw1 b"
          by simp
        also have "\<dots> = (concat (delivered (writer c)) @ take (cursor c) (data c)
            @ take copied (drop nw b)) @ drop nw1 b"
          by (simp only: X)
        also have "\<dots> = concat (delivered (writer c)) @ take (cursor c) (data c)
            @ (take copied (drop nw b) @ drop nw1 b)"
          by simp
        also have "take copied (drop nw b) @ drop nw1 b = drop nw b"
          using dr by simp
        finally show ?thesis .
      qed
      ultimately show ?thesis using step by auto
    qed
  qed
qed


lemma Write_all_inv:
  assumes "length (data c) = 2 * ChunkSize" "cursor c \<le> ChunkSize" "\<not> closed (writer c)"
    "list_all (\<lambda>s. length s = ChunkSize) (delivered (writer c))"
  shows "\<exists>c'. Write_all c bs = Some (c', None)
      \<and> length (data c') = 2 * ChunkSize \<and> cursor c' \<le> ChunkSize \<and> \<not> closed (writer c')
      \<and> list_all (\<lambda>s. length s = ChunkSize) (delivered (writer c'))
      \<and> concat (delivered (writer c')) @ take (cursor c') (data c')
          = concat (delivered (writer c)) @ take (cursor c) (data c) @ concat bs"
  using assms
proof (induction bs arbitrary: c)
  case Nil
  then show ?case by simp
next
  case (Cons b bs)
  from Write_loop_inv[OF Cons.prems, of 0 b]
  obtain c1 where c1: "Write_loop c b 0 = Some (c1, length b, None)"
    "length (data c1) = 2 * ChunkSize" "cursor c1 \<le> ChunkSize" "\<not> closed (writer c1)"
    "list_all (\<lambda>s. length s = ChunkSize) (delivered (writer c1))"
    "concat (delivered (writer c1)) @ take (cursor c1) (data c1)
          = concat (delivered (writer c)) @ take (cursor c) (data c) @ b"
    by auto
  from Cons.IH[OF c1(2-5)]
  obtain c' where c': "Write_all c1 bs = Some (c', None)"
    "length (data c') = 2 * ChunkSize" "cursor c' \<le> ChunkSize" "\<not> closed (writer c')"
    "list_all (\<lambda>s. length s = ChunkSize) (delivered (writer c'))"
    "concat (delivered (writer c')) @ take (cursor c') (data c')
          = concat (delivered (writer c1)) @ take (cursor c1) (data c1) @ concat bs"
    by blast
  have "concat (delivered (writer c')) @ take (cursor c') (data c')
      = (concat (delivered (writer c1)) @ take (cursor c1) (data c1)) @ concat bs"
    using c'(6) by simp
  also have "\<dots> = concat (delivered (writer c)) @ take (cursor c) (data c) @ concat (b # bs)"
    by (simp only: c1(6)) simp
  finally have "concat (delivered (writer c')) @ take (cursor c') (data c')
      = concat (delivered (writer c)) @ take (cursor c) (data c) @ concat (b # bs)" .
  moreover have "Write_all c (b # bs) = Some (c', None)"
    using c1(1) c'(1) by (simp add: ChunkPipe_Write_def)
  ultimately show ?case using c' by blast
qed

text \<open>
  C10: for every sequence of writes followed by \<^verbatim>\<open>Close\<close> on a new ChunkPipe, every call
  returns without error, the pipe is closed, the segments delivered to the underlying
  pipe concatenate to the written bytes in order, and every segment except possibly the
  last is exactly \<^verbatim>\<open>ChunkSize\<close> = 4096 bytes long (the last is not empty and not longer).
\<close>

theorem ChunkPipe_delivers_full_chunks:
  "\<exists>c. Write_all_Close bs = Some (c, None)
     \<and> closed (writer c)
     \<and> concat (delivered (writer c)) = concat bs
     \<and> list_all (\<lambda>s. length s = ChunkSize) (butlast (delivered (writer c)))
     \<and> list_all (\<lambda>s. 0 < length s \<and> length s \<le> ChunkSize) (delivered (writer c))
     \<and> ChunkSize = 4096"
proof -
  have "\<exists>c'. Write_all NewChunkPipe bs = Some (c', None)
      \<and> length (data c') = 2 * ChunkSize \<and> cursor c' \<le> ChunkSize \<and> \<not> closed (writer c')
      \<and> list_all (\<lambda>s. length s = ChunkSize) (delivered (writer c'))
      \<and> concat (delivered (writer c')) @ take (cursor c') (data c')
          = concat (delivered (writer NewChunkPipe))
            @ take (cursor NewChunkPipe) (data NewChunkPipe) @ concat bs"
    by (rule Write_all_inv) (simp_all add: NewChunkPipe_def maxBufferSize_def)
  then obtain c' where c': "Write_all NewChunkPipe bs = Some (c', None)"
    "length (data c') = 2 * ChunkSize" "cursor c' \<le> ChunkSize" "\<not> closed (writer c')"
    "list_all (\<lambda>s. length s = ChunkSize) (delivered (writer c'))"
    "concat (delivered (writer c')) @ take (cursor c') (data c') = concat bs"
    by (auto simp: NewChunkPipe_def)
  have cs: "0 < ChunkSize" "ChunkSize = 4096" by (simp_all add: ChunkSize_def)
  show ?thesis
  proof (cases "cursor c' > 0")
    case True
    define w where "w = (writer c')\<lparr>delivered := delivered (writer c') @ [take (cursor c') (data c')],
      closed := True\<rparr>"
    have "ChunkPipe_Close c' = (c'\<lparr>writer := w\<rparr>, None)"
      using True c'(2-4)
      by (simp add: ChunkPipe_Close_def pipe_Write_def pipe_Close_def w_def)
    then have "Write_all_Close bs = Some (c'\<lparr>writer := w\<rparr>, None)"
      using c'(1) by (simp add: Write_all_Close_def)
    moreover have "concat (delivered w) = concat bs" using c'(6) by (simp add: w_def)
    moreover have "list_all (\<lambda>s. length s = ChunkSize) (butlast (delivered w))"
      using c'(5) by (simp add: w_def)
    moreover have "list_all (\<lambda>s. 0 < length s \<and> length s \<le> ChunkSize) (delivered w)"
      using c'(2,3,5) True cs(1) by (auto simp: w_def list_all_iff)
    moreover have "closed w" by (simp add: w_def)
    ultimately show ?thesis using cs(2) by (intro exI[of _ "c'\<lparr>writer := w\<rparr>"]) simp
  next
    case False
    define w where "w = (writer c')\<lparr>closed := True\<rparr>"
    have "ChunkPipe_Close c' = (c'\<lparr>writer := w\<rparr>, None)"
      using False by (simp add: ChunkPipe_Close_def pipe_Close_def w_def)
    then have "Write_all_Close bs = Some (c'\<lparr>writer := w\<rparr>, None)"
      using c'(1) by (simp add: Write_all_Close_def)
    moreover have "concat (delivered w) = concat bs" using c'(6) False by (simp add: w_def)
    moreover have "list_all (\<lambda>s. length s = ChunkSize) (butlast (delivered w))"
      using c'(5) by (auto simp: w_def list_all_iff dest: in_set_butlastD)
    moreover have "list_all (\<lambda>s. 0 < length s \<and> length s \<le> ChunkSize) (delivered w)"
      using c'(5) cs(1) by (auto simp: w_def list_all_iff)
    moreover have "closed w" by (simp add: w_def)
    ultimately show ?thesis using cs(2) by (intro exI[of _ "c'\<lparr>writer := w\<rparr>"]) simp
  qed
qed

section \<open>Peer records: results\<close>










section \<open>Localstore: results\<close>

























section \<open>Kademlia: results on depth and saturation\<close>

lemma each_in_bin_flat:
  assumes "\<And>v po s. fst (snd (fst (pf v po s))) = False"
  shows "(case each_in_bin pf po vs s of
            ((True, err), s') \<Rightarrow> (err, s')
          | ((False, err), s') \<Rightarrow> each_flat pf r s')
         = each_flat pf (map (\<lambda>v. (v, po)) vs @ r) s"
proof (induction vs arbitrary: s)
  case Nil
  then show ?case by simp
next
  case (Cons v vs)
  obtain stop jump err s' where p: "pf v po s = ((stop, jump, err), s')"
    by (metis prod.exhaust)
  then have j: "jump = False" using assms[of v po s] by simp
  show ?case using Cons.IH[of s'] p j by (cases err; cases stop) simp_all
qed

lemma each_bins_flat:
  assumes "\<And>v po s. fst (snd (fst (pf v po s))) = False"
  shows "each_bins pf bs s = each_flat pf (flat_bins bs) s"
proof (induction bs arbitrary: s)
  case Nil
  then show ?case by (simp add: flat_bins_def)
next
  case (Cons b bs)
  obtain po vs where b: "b = (po, vs)" by (cases b)
  have "each_bins pf (b # bs) s =
      (case each_in_bin pf po vs s of
            ((True, err), s') \<Rightarrow> (err, s')
          | ((False, err), s') \<Rightarrow> each_flat pf (flat_bins bs) s')"
    using Cons.IH by (simp add: b split: prod.split bool.split)
  also have "\<dots> = each_flat pf (map (\<lambda>v. (v, po)) vs @ flat_bins bs) s"
    by (rule each_in_bin_flat[OF assms])
  finally show ?case by (simp add: b flat_bins_def)
qed

lemma EachBin_flat:
  assumes "\<And>v po s. fst (snd (fst (pf v po s))) = False"
  shows "EachBin pf ps s = each_flat pf (walk_closest_first ps) s"
  unfolding EachBin_def walk_closest_first_def
  using each_bins_flat[of pf "rev (enumerate 0 ps)" s] assms by (simp add: flat_bins_def)

lemma recalcDepth_walk_no_jump: "fst (snd (fst (recalcDepth_walk v po s))) = False"
  by (cases s) (simp add: recalcDepth_walk_def Let_def)

lemma binSaturated_walk_no_jump: "fst (snd (fst (binSaturated_walk bin v po s))) = False"
  by (simp add: binSaturated_walk_def)

lemma each_flat_recalcDepth_walk:
  "ctr < nnLowWatermark \<Longrightarrow> nnLowWatermark \<le> ctr + length xs \<Longrightarrow>
     each_flat recalcDepth_walk xs (ctr, cand)
       = (None, (nnLowWatermark, snd (xs ! (nnLowWatermark - 1 - ctr))))"
proof (induction xs arbitrary: ctr cand)
  case Nil
  then show ?case by simp
next
  case (Cons x xs)
  obtain v po where x: "x = (v, po)" by (cases x)
  show ?case
  proof (cases "Suc ctr \<ge> nnLowWatermark")
    case True
    with Cons.prems have "Suc ctr = nnLowWatermark" by simp
    then show ?thesis by (simp add: x recalcDepth_walk_def)
  next
    case False
    then have "each_flat recalcDepth_walk (x # xs) (ctr, cand)
        = each_flat recalcDepth_walk xs (Suc ctr, cand)"
      by (simp add: x recalcDepth_walk_def)
    also have "\<dots> = (None, (nnLowWatermark, snd (xs ! (nnLowWatermark - 1 - Suc ctr))))"
      using False Cons.prems by (intro Cons.IH) simp_all
    also have "xs ! (nnLowWatermark - 1 - Suc ctr) = (x # xs) ! (nnLowWatermark - 1 - ctr)"
    proof -
      from False have "ctr = 0" by (simp add: nnLowWatermark_def)
      then show ?thesis by (simp add: nnLowWatermark_def)
    qed
    finally show ?thesis .
  qed
qed

lemma length_flat_bins_enumerate: "length (flat_bins (enumerate n ps)) = length (concat ps)"
  by (induction ps arbitrary: n) (simp_all add: flat_bins_def)

lemma length_flat_bins_rev: "length (flat_bins (rev bs)) = length (flat_bins bs)"
  by (induction bs) (auto simp: flat_bins_def)

lemma length_walk_closest_first: "length (walk_closest_first ps) = Length ps"
  using length_flat_bins_rev[of "enumerate 0 ps"] length_flat_bins_enumerate[of 0 ps]
  by (simp add: walk_closest_first_def flat_bins_def Length_def)

lemma shallowest_from_eq:
  "shallowest_from i ps =
     (if [] \<in> set ps then (i + length (takeWhile (\<lambda>b. b \<noteq> []) ps), False) else (0, True))"
  by (induction ps arbitrary: i) auto

lemma ShallowestEmpty_eq:
  "ShallowestEmpty ps =
     (if [] \<in> set ps then (shallowest_empty ps, False) else (0, True))"
  by (simp add: ShallowestEmpty_def shallowest_empty_def shallowest_from_eq)

lemma shallowest_empty_full: "[] \<notin> set ps \<Longrightarrow> shallowest_empty ps = length ps"
  by (simp add: shallowest_empty_def) (metis (mono_tags, lifting) takeWhile_eq_all_conv)

lemma flat_bins_po_bound:
  "x \<in> set (flat_bins (enumerate n ps)) \<Longrightarrow> n \<le> snd x \<and> snd x < n + length ps
     \<and> fst x \<in> set (ps ! (snd x - n))"
proof (induction ps arbitrary: n)
  case Nil
  then show ?case by (simp add: flat_bins_def)
next
  case (Cons b bs)
  from Cons.prems have "x \<in> (\<lambda>v. (v, n)) ` set b \<or> x \<in> set (flat_bins (enumerate (Suc n) bs))"
    by (auto simp: flat_bins_def)
  then show ?case
  proof
    assume "x \<in> (\<lambda>v. (v, n)) ` set b"
    then show ?thesis by auto
  next
    assume "x \<in> set (flat_bins (enumerate (Suc n) bs))"
    from Cons.IH[OF this] have ih: "Suc n \<le> snd x" "snd x < Suc n + length bs"
      "fst x \<in> set (bs ! (snd x - Suc n))" by simp_all
    from ih(1) have "snd x - n = Suc (snd x - Suc n)" by simp
    then show ?thesis using ih by simp
  qed
qed

lemma set_flat_bins_rev: "set (flat_bins (rev bs)) = set (flat_bins bs)"
  by (simp add: flat_bins_def)

lemma walk_closest_first_po_bound:
  "x \<in> set (walk_closest_first ps) \<Longrightarrow> snd x < length ps \<and> fst x \<in> set (ps ! snd x)"
  using flat_bins_po_bound[of x 0 ps] set_flat_bins_rev[of "enumerate 0 ps"]
  by (simp add: walk_closest_first_def flat_bins_def)

lemma candidate_bound: "nnLowWatermark \<le> Length ps \<Longrightarrow> candidate ps < length ps"
proof -
  assume "nnLowWatermark \<le> Length ps"
  then have "nnLowWatermark - 1 < length (walk_closest_first ps)"
    by (simp add: length_walk_closest_first nnLowWatermark_def)
  then have "walk_closest_first ps ! (nnLowWatermark - 1) \<in> set (walk_closest_first ps)"
    by (rule nth_mem)
  then show ?thesis using walk_closest_first_po_bound unfolding candidate_def by blast
qed

lemma walk_closest_first_Cons:
  "walk_closest_first (b # bs) = flat_bins (rev (enumerate 1 bs)) @ map (\<lambda>v. (v, 0)) b"
  by (simp add: walk_closest_first_def flat_bins_def)

lemma depth_spec_two_peers:
  assumes "Length ps = nnLowWatermark"
  shows "min (shallowest_empty ps) (candidate ps) = 0"
proof (cases ps)
  case Nil
  then show ?thesis by (simp add: shallowest_empty_def)
next
  case (Cons b bs)
  show ?thesis
  proof (cases "b = []")
    case True
    then show ?thesis by (simp add: Cons shallowest_empty_def)
  next
    case False
    have l: "length (walk_closest_first ps) = nnLowWatermark"
      using assms by (simp add: length_walk_closest_first)
    then have ne: "walk_closest_first ps \<noteq> []" by (auto simp: nnLowWatermark_def)
    have "walk_closest_first ps ! (nnLowWatermark - 1) = last (walk_closest_first ps)"
      using l ne by (simp add: last_conv_nth)
    also have "\<dots> = last (map (\<lambda>v. (v, 0)) b)"
      using False by (simp add: Cons walk_closest_first_Cons)
    also have "\<dots> = (last b, 0)" using False by (simp add: last_map)
    finally show ?thesis by (simp add: candidate_def)
  qed
qed

lemma recalcDepth_depth_spec: "recalcDepth ps = depth_spec ps"
proof (cases "Length ps \<le> nnLowWatermark")
    case True
    then have r: "recalcDepth ps = 0" by (simp add: recalcDepth_def)
    show ?thesis
    proof (cases "Length ps = nnLowWatermark")
      case True
      then show ?thesis using r depth_spec_two_peers[OF True]
        by (simp add: depth_spec_def length_walk_closest_first)
    next
      case False
      with True show ?thesis using r by (simp add: depth_spec_def length_walk_closest_first)
    qed
  next
    case False
    then have big: "nnLowWatermark \<le> Length ps" by simp
    have w: "EachBin recalcDepth_walk ps (0, 0) = (None, (nnLowWatermark, candidate ps))"
      unfolding EachBin_flat[of recalcDepth_walk, OF recalcDepth_walk_no_jump] candidate_def
      using each_flat_recalcDepth_walk[of 0 "walk_closest_first ps" 0] big
      by (simp add: length_walk_closest_first nnLowWatermark_def)
    have c: "candidate ps < length ps" by (rule candidate_bound[OF big])
    show ?thesis
    proof (cases "[] \<in> set ps")
      case True
      then show ?thesis using False w
        by (auto simp: recalcDepth_def ShallowestEmpty_eq depth_spec_def length_walk_closest_first)
    next
      case none: False
      then show ?thesis using False w c shallowest_empty_full[OF none]
        by (simp add: recalcDepth_def ShallowestEmpty_eq depth_spec_def length_walk_closest_first)
    qed
qed

text \<open>
  C1: for every set of connected peers in bins, \<^verbatim>\<open>recalcDepth\<close> is the specification's
  depth: 0 with fewer than \<^verbatim>\<open>nnLow = 2\<close> peers, and otherwise the smaller of the lowest
  empty bin (the number of bins when none is empty) and the bin of the peer at which a
  closest-bin-first count of the peers first reaches 2. It is the depth stored when a
  peer has connected or disconnected, and \<^verbatim>\<open>NeighborhoodDepth\<close> returns it.
\<close>

theorem recalcDepth_is_depth_spec:
  "recalcDepth ps = depth_spec ps
   \<and> nnLowWatermark = 2
   \<and> NeighborhoodDepth (Disconnected k now peer)
        = depth_spec (connectedPeers (Disconnected k now peer))
   \<and> NeighborhoodDepth (snd (connected k None peer))
        = depth_spec (connectedPeers (snd (connected k None peer)))"
  by (simp add: recalcDepth_depth_spec nnLowWatermark_def NeighborhoodDepth_def
      Disconnected_def connected_def Let_def)

lemma each_flat_binSaturated_walk:
  "each_flat (binSaturated_walk bin) xs sz = (None, sz + length (filter (\<lambda>x. snd x = bin) xs))"
  by (induction xs arbitrary: sz) (auto simp: binSaturated_walk_def)

lemma count_flat_bins_enumerate:
  "length (filter (\<lambda>x. snd x = bin) (flat_bins (enumerate n ps)))
     = (if n \<le> bin \<and> bin < n + length ps then length (ps ! (bin - n)) else 0)"
proof (induction ps arbitrary: n)
  case Nil
  then show ?case by (auto simp: flat_bins_def)
next
  case (Cons b bs)
  have f: "flat_bins (enumerate n (b # bs)) = map (\<lambda>v. (v, n)) b @ flat_bins (enumerate (Suc n) bs)"
    by (simp add: flat_bins_def)
  have h: "length (filter (\<lambda>x. snd x = bin) (map (\<lambda>v. (v, n)) b)) = (if n = bin then length b else 0)"
    by (induction b) auto
  show ?case
  proof (cases "n = bin")
    case True
    then show ?thesis unfolding f by (simp add: h Cons.IH)
  next
    case False
    have "bin - n = Suc (bin - Suc n)" if "Suc n \<le> bin" using that by simp
    then show ?thesis unfolding f using False by (auto simp: h Cons.IH)
  qed
qed

lemma count_flat_bins_rev:
  "length (filter P (flat_bins (rev bs))) = length (filter P (flat_bins bs))"
  by (induction bs) (auto simp: flat_bins_def)

lemma count_walk_closest_first:
  "length (filter (\<lambda>x. snd x = bin) (walk_closest_first ps)) = peers_in_bin ps bin"
  using count_flat_bins_rev[of "\<lambda>x. snd x = bin" "enumerate 0 ps"]
    count_flat_bins_enumerate[of bin 0 ps]
  by (simp add: walk_closest_first_def flat_bins_def peers_in_bin_def)

lemma EachBin_binSaturated_walk:
  "EachBin (binSaturated_walk bin) conn 0 = (None, peers_in_bin conn bin)"
  unfolding EachBin_flat[of "binSaturated_walk bin", OF binSaturated_walk_no_jump]
  by (simp add: each_flat_binSaturated_walk count_walk_closest_first)

lemma recalcDepth_ex_connected: "recalcDepth ex_connected = 0"
  by code_simp

lemma recalcDepth_ex_known: "recalcDepth ex_known = 2"
  by code_simp

text \<open>
  C6, as stated, has \<^verbatim>\<open>binSaturated\<close> answer \<^verbatim>\<open>(false, false)\<close> for every bin at or beyond
  the neighborhood depth, which is the depth of the connected peers. The code compares
  the bin with the depth of its first argument, the known peers: with four connected
  peers, all in bin 0, the neighborhood depth is 0, and with further known peers in bins
  1 and 2 the answer for bin 0 is \<^verbatim>\<open>(true, false)\<close>.
\<close>

theorem binSaturated_uses_known_depth:
  "recalcDepth ex_connected = 0
   \<and> recalcDepth ex_known = 2
   \<and> binSaturated 0 ex_known ex_connected = (True, False)"
  by (simp add: recalcDepth_ex_connected recalcDepth_ex_known binSaturated_def
      EachBin_binSaturated_walk saturationPeers_def overSaturationPeers_def)
     (simp add: peers_in_bin_def ex_connected_def)

text \<open>
  C6 (amended): \<^verbatim>\<open>binSaturated(bin, known, connected)\<close> returns \<^verbatim>\<open>(false, false)\<close> for
  every bin greater than or equal to the depth computed from the known peers
  (\<^verbatim>\<open>recalcDepth(known)\<close>); for every shallower bin it returns saturated iff the number of
  connected peers whose proximity order equals the bin is at least
  \<^verbatim>\<open>saturationPeers = 4\<close>, and oversaturated iff that number is at least
  \<^verbatim>\<open>overSaturationPeers = 16\<close>.
\<close>

theorem binSaturated_result:
  "binSaturated bin known conn =
     (if bin \<ge> recalcDepth known then (False, False)
      else (4 \<le> length (filter (\<lambda>x. snd x = bin) (walk_closest_first conn)),
            16 \<le> length (filter (\<lambda>x. snd x = bin) (walk_closest_first conn))))
   \<and> length (filter (\<lambda>x. snd x = bin) (walk_closest_first conn))
       = (if bin < length conn then length (conn ! bin) else 0)"
  by (simp add: binSaturated_def EachBin_binSaturated_walk count_walk_closest_first
      saturationPeers_def overSaturationPeers_def peers_in_bin_def)

section \<open>Kademlia: results on the closest peer and on connecting\<close>

lemma isIn_set: "isIn a xs \<longleftrightarrow> a \<in> set xs"
  by (induction xs) auto

lemma EachBinRev_flat:
  assumes "\<And>v po s. fst (snd (fst (pf v po s))) = False"
  shows "EachBinRev pf ps s = each_flat pf (walk_farthest_first ps) s"
  unfolding EachBinRev_def walk_farthest_first_def
  using each_bins_flat[of pf "enumerate 0 ps" s] assms by simp

lemma ClosestPeer_walk_no_jump: "fst (snd (fst (ClosestPeer_walk skipPeers peers addr v po s))) = False"
  by (cases s) (simp add: ClosestPeer_walk_def split: sum.splits)

lemma map_fst_flat_bins_enumerate: "map fst (flat_bins (enumerate n ps)) = concat ps"
  by (induction ps arbitrary: n) (simp_all add: flat_bins_def comp_def)

lemma map_fst_walk_farthest_first: "map fst (walk_farthest_first ps) = concat ps"
  by (simp add: walk_farthest_first_def map_fst_flat_bins_enumerate)

lemma DistanceCmp_same_length:
  "length x = length a \<Longrightarrow> length y = length a \<Longrightarrow>
     DistanceCmp a x y = Inr (if Distance a y < Distance a x then - 1
                              else if Distance a y = Distance a x then 0 else 1)"
  by (simp add: DistanceCmp_def)

text \<open>
  The walk of \<^verbatim>\<open>ClosestPeer\<close> over peers as long as the target: it ends without error,
  collects the peers the p2p service does not list, and leaves in \<^verbatim>\<open>closest\<close> an
  address at least as close to the target as the starting one and as every peer it could
  choose, strictly closer than the starting one if it is another address.
\<close>

lemma each_flat_ClosestPeer_walk:
  assumes "length c0 = length addr" "\<forall>x \<in> set xs. length (fst x) = length addr"
  shows "\<exists>c. each_flat (ClosestPeer_walk skipPeers peers addr) xs (ptd, c0)
          = (None, (ptd @ filter (\<lambda>p. \<not> isIn p skipPeers \<and> \<not> isIn p peers) (map fst xs), c))
      \<and> length c = length addr
      \<and> (c = c0 \<or> c \<in> set (filter (\<lambda>p. \<not> isIn p skipPeers \<and> isIn p peers) (map fst xs)))
      \<and> (\<forall>q \<in> set (filter (\<lambda>p. \<not> isIn p skipPeers \<and> isIn p peers) (map fst xs)).
            Distance addr c \<le> Distance addr q)
      \<and> Distance addr c \<le> Distance addr c0
      \<and> (c \<noteq> c0 \<longrightarrow> Distance addr c < Distance addr c0)"
  using assms
proof (induction xs arbitrary: ptd c0)
  case Nil
  then show ?case by simp
next
  case (Cons x xs)
  obtain v po where x: "x = (v, po)" by (cases x)
  have lv: "length v = length addr" and lxs: "\<forall>x \<in> set xs. length (fst x) = length addr"
    using Cons.prems(2) x by simp_all
  let ?W = "ClosestPeer_walk skipPeers peers addr"
  show ?case
  proof (cases "isIn v skipPeers")
    case True
    have "each_flat ?W (x # xs) (ptd, c0) = each_flat ?W xs (ptd, c0)"
      using True by (simp add: x ClosestPeer_walk_def)
    then show ?thesis using Cons.IH[OF Cons.prems(1) lxs, of ptd] True by (simp add: x)
  next
    case notskip: False
    show ?thesis
    proof (cases "isIn v peers")
      case False
      have "each_flat ?W (x # xs) (ptd, c0) = each_flat ?W xs (ptd @ [v], c0)"
        using notskip False by (simp add: x ClosestPeer_walk_def)
      then show ?thesis using Cons.IH[OF Cons.prems(1) lxs, of "ptd @ [v]"] notskip False
        by (simp add: x)
    next
      case True
      define c1 where "c1 = (if Distance addr v < Distance addr c0 then v else c0)"
      have lc1: "length c1 = length addr" using lv Cons.prems(1) by (simp add: c1_def)
      have "each_flat ?W (x # xs) (ptd, c0) = each_flat ?W xs (ptd, c1)"
        using notskip True DistanceCmp_same_length[OF Cons.prems(1) lv]
        by (simp add: x ClosestPeer_walk_def c1_def)
      moreover
      from Cons.IH[OF lc1 lxs, of ptd]
      obtain c where c: "each_flat ?W xs (ptd, c1)
          = (None, (ptd @ filter (\<lambda>p. \<not> isIn p skipPeers \<and> \<not> isIn p peers) (map fst xs), c))"
        "length c = length addr"
        "c = c1 \<or> c \<in> set (filter (\<lambda>p. \<not> isIn p skipPeers \<and> isIn p peers) (map fst xs))"
        "\<forall>q \<in> set (filter (\<lambda>p. \<not> isIn p skipPeers \<and> isIn p peers) (map fst xs)).
            Distance addr c \<le> Distance addr q"
        "Distance addr c \<le> Distance addr c1"
        "c \<noteq> c1 \<longrightarrow> Distance addr c < Distance addr c1"
        by blast
      have d1: "Distance addr c1 \<le> Distance addr v" "Distance addr c1 \<le> Distance addr c0"
        "c1 = v \<or> c1 = c0" "c1 \<noteq> c0 \<longrightarrow> Distance addr c1 < Distance addr c0"
        by (auto simp: c1_def)
      have "c = c0 \<or> c = v
          \<or> c \<in> set (filter (\<lambda>p. \<not> isIn p skipPeers \<and> isIn p peers) (map fst xs))"
        using c(3) d1(3) by blast
      moreover have "Distance addr c \<le> Distance addr v" "Distance addr c \<le> Distance addr c0"
        using c(5) d1 by linarith+
      moreover have "c \<noteq> c0 \<longrightarrow> Distance addr c < Distance addr c0"
        using c(5,6) d1(2,4) by (metis le_neq_implies_less order_le_less_trans)
      ultimately show ?thesis using c(1,2,4) notskip True by (simp add: x)
    qed
  qed
qed

lemma ClosestPeer_unfold:
  assumes "length (base k) = length addr"
    and "\<forall>p \<in> set (concat (connectedPeers k)). length p = length addr"
    and "Length (connectedPeers k) \<noteq> 0"
  shows "\<exists>c. ClosestPeer k peers now addr skipPeers =
            (if c = base k then Inl TopologyErrWantSelf else Inr c,
             fold (\<lambda>v k. Disconnected k now v) (peers_to_disconnect k peers skipPeers) k)
      \<and> (c = base k \<or> c \<in> set (eligible k peers skipPeers))
      \<and> (\<forall>q \<in> set (eligible k peers skipPeers). Distance addr c \<le> Distance addr q)
      \<and> (c \<noteq> base k \<longrightarrow> Distance addr c < Distance addr (base k))"
proof -
  let ?xs = "walk_farthest_first (connectedPeers k)"
  have l: "\<forall>x \<in> set ?xs. length (fst x) = length addr"
    using assms(2) map_fst_walk_farthest_first[of "connectedPeers k"]
    by (metis (no_types, lifting) image_eqI list.set_map)
  from each_flat_ClosestPeer_walk[OF assms(1) l, of skipPeers peers "[]"]
  obtain c where c: "each_flat (ClosestPeer_walk skipPeers peers addr) ?xs ([], base k)
          = (None, ([] @ filter (\<lambda>p. \<not> isIn p skipPeers \<and> \<not> isIn p peers) (map fst ?xs), c))"
      "c = base k \<or> c \<in> set (eligible k peers skipPeers)"
      "\<forall>q \<in> set (eligible k peers skipPeers). Distance addr c \<le> Distance addr q"
      "c \<noteq> base k \<longrightarrow> Distance addr c < Distance addr (base k)"
    unfolding eligible_def by blast
  have "ClosestPeer k peers now addr skipPeers =
      (if c = base k then Inl TopologyErrWantSelf else Inr c,
       fold (\<lambda>v k. Disconnected k now v)
         (filter (\<lambda>p. \<not> isIn p skipPeers \<and> \<not> isIn p peers) (map fst ?xs)) k)"
    using assms(3) c(1)
    by (simp add: ClosestPeer_def Let_def
        EachBinRev_flat[of "ClosestPeer_walk skipPeers peers addr", OF ClosestPeer_walk_no_jump])
  then have "ClosestPeer k peers now addr skipPeers =
      (if c = base k then Inl TopologyErrWantSelf else Inr c,
       fold (\<lambda>v k. Disconnected k now v) (peers_to_disconnect k peers skipPeers) k)"
    unfolding peers_to_disconnect_def .
  then show ?thesis using c(2-4) by blast
qed

text \<open>What disconnecting a list of peers does to the node.\<close>

lemma fold_Disconnected_frame:
  "base (fold (\<lambda>v k. Disconnected k now v) vs k) = base k
   \<and> knownPeers (fold (\<lambda>v k. Disconnected k now v) vs k) = knownPeers k
   \<and> addressBook (fold (\<lambda>v k. Disconnected k now v) vs k) = addressBook k"
  by (induction vs arbitrary: k) (simp_all add: Disconnected_def Let_def)

lemma fold_Disconnected_waitNext:
  "waitNext (fold (\<lambda>v k. Disconnected k now v) vs k) p =
     (if p \<in> set vs then Some \<lparr>tryAfter = now + timeToRetry, failedAttempts = 0\<rparr>
      else waitNext k p)"
  by (induction vs arbitrary: k) (auto simp: Disconnected_def Let_def)

lemma fold_Disconnected_connectedPeers:
  "connectedPeers (fold (\<lambda>v k. Disconnected k now v) vs k) =
     fold (\<lambda>v ps. Remove ps v (Proximity (base k) v)) vs (connectedPeers k)"
proof (induction vs arbitrary: k)
  case Nil
  show ?case by simp
next
  case (Cons v vs)
  have b: "base (Disconnected k now v) = base k" by (simp add: Disconnected_def Let_def)
  have c: "connectedPeers (Disconnected k now v)
      = Remove (connectedPeers k) v (Proximity (base k) v)"
    by (simp add: Disconnected_def Let_def)
  show ?case by (simp add: Cons.IH b c)
qed

lemma in_concat_nth: "q \<in> set (concat ps) \<longleftrightarrow> (\<exists>i < length ps. q \<in> set (ps ! i))"
proof
  assume "q \<in> set (concat ps)"
  then obtain x where x: "x \<in> set ps" "q \<in> set x" by auto
  then obtain i where "i < length ps" "ps ! i = x" by (auto simp: in_set_conv_nth)
  with x(2) show "\<exists>i < length ps. q \<in> set (ps ! i)" by blast
next
  assume "\<exists>i < length ps. q \<in> set (ps ! i)"
  then obtain i where i: "i < length ps" "q \<in> set (ps ! i)" by blast
  then have "ps ! i \<in> set ps" by simp
  with i(2) show "q \<in> set (concat ps)" by auto
qed

lemma Remove_nth:
  "length (Remove ps a po) = length ps
   \<and> (\<forall>i < length ps. Remove ps a po ! i = (if i = po then removeAll a (ps ! i) else ps ! i))"
  by (simp add: Remove_def nth_list_update)

lemma Remove_other:
  assumes "q \<noteq> a"
  shows "q \<in> set (concat (Remove ps a po)) \<longleftrightarrow> q \<in> set (concat ps)"
proof -
  have "q \<in> set (Remove ps a po ! i) \<longleftrightarrow> q \<in> set (ps ! i)" if "i < length ps" for i
    using Remove_nth[of ps a po] that assms by simp
  then show ?thesis
    unfolding in_concat_nth using Remove_nth[of ps a po] by auto
qed

lemma bins_by_proximity_nth:
  "bins_by_proximity b ps \<longleftrightarrow> (\<forall>i < length ps. \<forall>p \<in> set (ps ! i). Proximity b p = i)"
proof
  assume h: "bins_by_proximity b ps"
  show "\<forall>i < length ps. \<forall>p \<in> set (ps ! i). Proximity b p = i"
  proof (intro allI impI ballI)
    fix i p
    assume i: "i < length ps" and p: "p \<in> set (ps ! i)"
    have "(i, ps ! i) \<in> set (enumerate 0 ps)" using i by (simp add: in_set_enumerate_eq)
    with h have "list_all (\<lambda>p. Proximity b p = i) (ps ! i)"
      unfolding bins_by_proximity_def list_all_iff by fastforce
    with p show "Proximity b p = i" by (simp add: list_all_iff)
  qed
next
  assume h: "\<forall>i < length ps. \<forall>p \<in> set (ps ! i). Proximity b p = i"
  show "bins_by_proximity b ps"
    unfolding bins_by_proximity_def list_all_iff using h
    by (auto simp: in_set_enumerate_eq)
qed

lemma Remove_bins_by_proximity:
  assumes "bins_by_proximity b ps"
  shows "bins_by_proximity b (Remove ps a po)"
  using assms Remove_nth[of ps a po] unfolding bins_by_proximity_nth by auto

lemma Remove_self:
  assumes "bins_by_proximity b ps"
  shows "a \<notin> set (concat (Remove ps a (Proximity b a)))"
proof
  assume "a \<in> set (concat (Remove ps a (Proximity b a)))"
  then obtain i where i: "i < length ps" "a \<in> set (Remove ps a (Proximity b a) ! i)"
    unfolding in_concat_nth using Remove_nth[of ps a "Proximity b a"] by auto
  show False
  proof (cases "i = Proximity b a")
    case True
    with i Remove_nth[of ps a "Proximity b a"] show False by simp
  next
    case False
    with i Remove_nth[of ps a "Proximity b a"] have "a \<in> set (ps ! i)" by simp
    with assms i(1) have "Proximity b a = i" unfolding bins_by_proximity_nth by blast
    with False show False by simp
  qed
qed

lemma fold_Remove_other:
  "q \<notin> set vs \<Longrightarrow>
     q \<in> set (concat (fold (\<lambda>v ps. Remove ps v (Proximity b v)) vs ps)) \<longleftrightarrow> q \<in> set (concat ps)"
proof (induction vs arbitrary: ps)
  case Nil
  show ?case by simp
next
  case (Cons v vs)
  from Cons.prems have n: "q \<noteq> v" "q \<notin> set vs" by simp_all
  have "q \<in> set (concat (fold (\<lambda>v ps. Remove ps v (Proximity b v)) (v # vs) ps))
      \<longleftrightarrow> q \<in> set (concat (fold (\<lambda>v ps. Remove ps v (Proximity b v)) vs
                              (Remove ps v (Proximity b v))))"
    by simp
  also have "\<dots> \<longleftrightarrow> q \<in> set (concat (Remove ps v (Proximity b v)))"
    by (rule Cons.IH[OF n(2)])
  also have "\<dots> \<longleftrightarrow> q \<in> set (concat ps)"
    by (rule Remove_other[OF n(1)])
  finally show ?case .
qed

lemma fold_Remove_removed:
  assumes "bins_by_proximity b ps" "a \<in> set vs"
  shows "a \<notin> set (concat (fold (\<lambda>v ps. Remove ps v (Proximity b v)) vs ps))"
  using assms
proof (induction vs arbitrary: ps)
  case Nil
  then show ?case by simp
next
  case (Cons v vs)
  note w = Remove_bins_by_proximity[OF Cons.prems(1), of v "Proximity b v"]
  show ?case
  proof (cases "a \<in> set vs")
    case True
    from Cons.IH[OF w True] show ?thesis by simp
  next
    case False
    with Cons.prems(2) have e: "a = v" by simp
    have "a \<notin> set (concat (Remove ps v (Proximity b v)))"
      unfolding e by (rule Remove_self[OF Cons.prems(1)])
    then show ?thesis using fold_Remove_other[OF False, of b "Remove ps v (Proximity b v)"] by simp
  qed
qed

lemma peers_to_disconnect_set:
  "set (peers_to_disconnect k peers skipPeers)
     = {p \<in> set (concat (connectedPeers k)). p \<notin> set skipPeers \<and> p \<notin> set peers}"
  by (auto simp: peers_to_disconnect_def map_fst_walk_farthest_first isIn_set)

text \<open>
  The node after \<^verbatim>\<open>ClosestPeer\<close>: \<^verbatim>\<open>Disconnected\<close> has been called on every collected
  peer, in the order of the walk.
\<close>

lemma ClosestPeer_state:
  assumes "length (base k) = length addr"
    and "\<forall>p \<in> set (concat (connectedPeers k)). length p = length addr"
    and "Length (connectedPeers k) \<noteq> 0"
  shows "snd (ClosestPeer k peers now addr skipPeers)
           = fold (\<lambda>v k. Disconnected k now v) (peers_to_disconnect k peers skipPeers) k"
proof -
  from ClosestPeer_unfold[OF assms, of peers now skipPeers]
  obtain c where "ClosestPeer k peers now addr skipPeers =
            (if c = base k then Inl TopologyErrWantSelf else Inr c,
             fold (\<lambda>v k. Disconnected k now v) (peers_to_disconnect k peers skipPeers) k)"
    by blast
  then show ?thesis by (rule arg_cong[where f = snd, THEN trans]) (rule snd_conv)
qed

lemma eligible_set:
  "set (eligible k peers skipPeers)
     = {p \<in> set (concat (connectedPeers k)). p \<notin> set skipPeers \<and> p \<in> set peers}"
  by (auto simp: eligible_def map_fst_walk_farthest_first isIn_set)

lemma length_addr32: "length (addr32 b) = 32"
  by (simp add: addr32_def)

lemma addr32_eq: "addr32 a = addr32 b \<longleftrightarrow> a = b"
  by (simp add: addr32_def)

lemma be_nat_append_zeros:
  "foldl (\<lambda>acc b. acc * 256 + unat (b::byte)) n (replicate m 0) = n * 256 ^ m"
  by (induction m arbitrary: n) simp_all

lemma Distance_addr32: "Distance (addr32 a) (addr32 b) = unat (a XOR b) * 256 ^ 31"
  by (simp add: Distance_def addr32_def be_nat_def zip_replicate be_nat_append_zeros)

lemma walk_ex_kad:
  "walk_farthest_first (connectedPeers ex_kad)
     = [(addr32 0x80, 0), (addr32 0x40, 1), (addr32 0x60, 1)]"
  by code_simp

lemma ex_kad_facts: "Length (connectedPeers ex_kad) \<noteq> 0" "base ex_kad = addr32 0"
  by (simp_all add: ex_kad_def Length_def)

lemma ClosestPeer_ex_kad:
  "fst (ClosestPeer ex_kad peers now addr skipPeers) =
     (case each_flat (ClosestPeer_walk skipPeers peers addr)
             [(addr32 0x80, 0), (addr32 0x40, 1), (addr32 0x60, 1)] ([], addr32 0) of
        (Some err, s) \<Rightarrow> Inl err
      | (None, (peersToDisconnect, closest)) \<Rightarrow>
          if closest = addr32 0 then Inl TopologyErrWantSelf else Inr closest)"
  using ex_kad_facts
  by (simp add: ClosestPeer_def Let_def walk_ex_kad
      EachBinRev_flat[of "ClosestPeer_walk skipPeers peers addr", OF ClosestPeer_walk_no_jump]
      split: prod.splits option.splits)

text \<open>
  C2, as stated, has \<^verbatim>\<open>ClosestPeer\<close> return the connected, not skipped peer closest to
  the address. The code also passes over every connected peer that the p2p service does
  not list (and disconnects it afterwards): with the peer \<open>60 00 \<dots>\<close> connected, nothing
  skipped and a p2p service that lists no peer, \<^verbatim>\<open>ClosestPeer\<close> for the address
  \<open>60 00 \<dots>\<close> itself returns \<^verbatim>\<open>WantSelf\<close>, although that peer is strictly closer than the
  base address.
\<close>

theorem ClosestPeer_passes_over_unlisted_peer:
  "fst (ClosestPeer ex_kad [] 0 (addr32 0x60) []) = Inl TopologyErrWantSelf
   \<and> Exists (connectedPeers ex_kad) (addr32 0x60)
   \<and> Distance (addr32 0x60) (addr32 0x60) < Distance (addr32 0x60) (base ex_kad)"
proof -
  have "Exists (connectedPeers ex_kad) (addr32 0x60)"
    by (simp add: Exists_def ex_kad_def)
  then show ?thesis
    by (simp add: ClosestPeer_ex_kad ClosestPeer_walk_def ex_kad_facts Distance_addr32)
qed

text \<open>
  C2 (amended): for addresses of one length, \<^verbatim>\<open>ClosestPeer(addr, skip...)\<close> returns
  \<^verbatim>\<open>NotFound\<close> when the connected-peer set is empty. Otherwise it walks the connected
  peers farthest bin first and chooses among those that are not in the skip list and
  that the p2p service lists among its peers: it returns \<^verbatim>\<open>WantSelf\<close> iff the base
  address is at least as close to \<^verbatim>\<open>addr\<close> as every such peer, and otherwise returns such
  a peer whose XOR distance to \<^verbatim>\<open>addr\<close> is smallest among them and strictly smaller than
  the base address's. A call on an empty connected-peer set leaves the node as it is. Any
  other call ends by calling \<^verbatim>\<open>Disconnected\<close> on every connected peer that is not skipped
  and that the p2p service does not list, in the order of the walk: each of them gets the
  retry entry of a disconnected peer (retry after \<^verbatim>\<open>timeToRetry\<close>, no failed attempts) and,
  when every connected peer is in the bin of its proximity order, is no longer connected
  afterwards; the other peers stay connected or not as they were and keep their retry
  entries, and the base address and the known peers are unchanged.
\<close>

theorem ClosestPeer_result:
  assumes "length (base k) = length addr"
    and "\<forall>p \<in> set (concat (connectedPeers k)). length p = length addr"
  shows "(Length (connectedPeers k) = 0 \<longrightarrow>
            fst (ClosestPeer k peers now addr skipPeers) = Inl TopologyErrNotFound)
     \<and> (Length (connectedPeers k) \<noteq> 0 \<longrightarrow>
          (fst (ClosestPeer k peers now addr skipPeers) = Inl TopologyErrWantSelf \<longleftrightarrow>
             (\<forall>q \<in> set (eligible k peers skipPeers). Distance addr (base k) \<le> Distance addr q))
        \<and> (fst (ClosestPeer k peers now addr skipPeers) = Inl TopologyErrWantSelf
             \<or> (\<exists>p. fst (ClosestPeer k peers now addr skipPeers) = Inr p))
        \<and> (\<forall>p. fst (ClosestPeer k peers now addr skipPeers) = Inr p \<longrightarrow>
               p \<in> set (eligible k peers skipPeers)
             \<and> (\<forall>q \<in> set (eligible k peers skipPeers). Distance addr p \<le> Distance addr q)
             \<and> Distance addr p < Distance addr (base k)))
     \<and> set (eligible k peers skipPeers)
          = {p \<in> set (concat (connectedPeers k)). p \<notin> set skipPeers \<and> p \<in> set peers}
     \<and> (Length (connectedPeers k) = 0 \<longrightarrow> snd (ClosestPeer k peers now addr skipPeers) = k)
     \<and> (Length (connectedPeers k) \<noteq> 0 \<longrightarrow>
          snd (ClosestPeer k peers now addr skipPeers)
            = fold (\<lambda>v k. Disconnected k now v) (peers_to_disconnect k peers skipPeers) k
        \<and> (\<forall>p. waitNext (snd (ClosestPeer k peers now addr skipPeers)) p =
               (if p \<in> set (peers_to_disconnect k peers skipPeers)
                then Some \<lparr>tryAfter = now + timeToRetry, failedAttempts = 0\<rparr>
                else waitNext k p))
        \<and> (\<forall>q. q \<notin> set (peers_to_disconnect k peers skipPeers) \<longrightarrow>
               (Exists (connectedPeers (snd (ClosestPeer k peers now addr skipPeers))) q
                  \<longleftrightarrow> Exists (connectedPeers k) q))
        \<and> (bins_by_proximity (base k) (connectedPeers k) \<longrightarrow>
               (\<forall>p \<in> set (peers_to_disconnect k peers skipPeers).
                  \<not> Exists (connectedPeers (snd (ClosestPeer k peers now addr skipPeers))) p))
        \<and> base (snd (ClosestPeer k peers now addr skipPeers)) = base k
        \<and> knownPeers (snd (ClosestPeer k peers now addr skipPeers)) = knownPeers k)
     \<and> set (peers_to_disconnect k peers skipPeers)
          = {p \<in> set (concat (connectedPeers k)). p \<notin> set skipPeers \<and> p \<notin> set peers}"
proof -
  have old: "(Length (connectedPeers k) = 0 \<longrightarrow>
            fst (ClosestPeer k peers now addr skipPeers) = Inl TopologyErrNotFound)
     \<and> (Length (connectedPeers k) \<noteq> 0 \<longrightarrow>
          (fst (ClosestPeer k peers now addr skipPeers) = Inl TopologyErrWantSelf \<longleftrightarrow>
             (\<forall>q \<in> set (eligible k peers skipPeers). Distance addr (base k) \<le> Distance addr q))
        \<and> (fst (ClosestPeer k peers now addr skipPeers) = Inl TopologyErrWantSelf
             \<or> (\<exists>p. fst (ClosestPeer k peers now addr skipPeers) = Inr p))
        \<and> (\<forall>p. fst (ClosestPeer k peers now addr skipPeers) = Inr p \<longrightarrow>
               p \<in> set (eligible k peers skipPeers)
             \<and> (\<forall>q \<in> set (eligible k peers skipPeers). Distance addr p \<le> Distance addr q)
             \<and> Distance addr p < Distance addr (base k)))
     \<and> set (eligible k peers skipPeers)
          = {p \<in> set (concat (connectedPeers k)). p \<notin> set skipPeers \<and> p \<in> set peers}"
  proof (intro conjI impI)
    show "fst (ClosestPeer k peers now addr skipPeers) = Inl TopologyErrNotFound"
      if "Length (connectedPeers k) = 0"
      using that by (simp add: ClosestPeer_def)
    show "set (eligible k peers skipPeers)
            = {p \<in> set (concat (connectedPeers k)). p \<notin> set skipPeers \<and> p \<in> set peers}"
      by (rule eligible_set)
  next
    assume ne: "Length (connectedPeers k) \<noteq> 0"
    from ClosestPeer_unfold[OF assms ne, of peers now skipPeers]
    obtain c k' where c: "ClosestPeer k peers now addr skipPeers =
              (if c = base k then Inl TopologyErrWantSelf else Inr c, k')"
        "c = base k \<or> c \<in> set (eligible k peers skipPeers)"
        "\<forall>q \<in> set (eligible k peers skipPeers). Distance addr c \<le> Distance addr q"
        "c \<noteq> base k \<longrightarrow> Distance addr c < Distance addr (base k)"
      by blast
    show "fst (ClosestPeer k peers now addr skipPeers) = Inl TopologyErrWantSelf \<longleftrightarrow>
               (\<forall>q \<in> set (eligible k peers skipPeers). Distance addr (base k) \<le> Distance addr q)"
    proof (cases "c = base k")
      case True
      then show ?thesis using c(1,3) by simp
    next
      case False
      then have "c \<in> set (eligible k peers skipPeers)" "Distance addr c < Distance addr (base k)"
        using c(2,4) by simp_all
      then have "\<not> (\<forall>q \<in> set (eligible k peers skipPeers). Distance addr (base k) \<le> Distance addr q)"
        by (meson not_less)
      then show ?thesis using False c(1) by simp
    qed
    show "fst (ClosestPeer k peers now addr skipPeers) = Inl TopologyErrWantSelf
               \<or> (\<exists>p. fst (ClosestPeer k peers now addr skipPeers) = Inr p)"
      using c(1) by simp
    show "\<forall>p. fst (ClosestPeer k peers now addr skipPeers) = Inr p \<longrightarrow>
                 p \<in> set (eligible k peers skipPeers)
               \<and> (\<forall>q \<in> set (eligible k peers skipPeers). Distance addr p \<le> Distance addr q)
               \<and> Distance addr p < Distance addr (base k)"
      using c by (cases "c = base k") simp_all
  qed
  have d: "Length (connectedPeers k) = 0 \<longrightarrow> snd (ClosestPeer k peers now addr skipPeers) = k"
    by (simp add: ClosestPeer_def)
  have e: "Length (connectedPeers k) \<noteq> 0 \<longrightarrow>
          snd (ClosestPeer k peers now addr skipPeers)
            = fold (\<lambda>v k. Disconnected k now v) (peers_to_disconnect k peers skipPeers) k
        \<and> (\<forall>p. waitNext (snd (ClosestPeer k peers now addr skipPeers)) p =
               (if p \<in> set (peers_to_disconnect k peers skipPeers)
                then Some \<lparr>tryAfter = now + timeToRetry, failedAttempts = 0\<rparr>
                else waitNext k p))
        \<and> (\<forall>q. q \<notin> set (peers_to_disconnect k peers skipPeers) \<longrightarrow>
               (Exists (connectedPeers (snd (ClosestPeer k peers now addr skipPeers))) q
                  \<longleftrightarrow> Exists (connectedPeers k) q))
        \<and> (bins_by_proximity (base k) (connectedPeers k) \<longrightarrow>
               (\<forall>p \<in> set (peers_to_disconnect k peers skipPeers).
                  \<not> Exists (connectedPeers (snd (ClosestPeer k peers now addr skipPeers))) p))
        \<and> base (snd (ClosestPeer k peers now addr skipPeers)) = base k
        \<and> knownPeers (snd (ClosestPeer k peers now addr skipPeers)) = knownPeers k"
  proof
    assume ne: "Length (connectedPeers k) \<noteq> 0"
    note st = ClosestPeer_state[OF assms ne, of peers now skipPeers]
    note fr = fold_Disconnected_frame[of now "peers_to_disconnect k peers skipPeers" k]
    have e1: "\<forall>p. waitNext (snd (ClosestPeer k peers now addr skipPeers)) p =
               (if p \<in> set (peers_to_disconnect k peers skipPeers)
                then Some \<lparr>tryAfter = now + timeToRetry, failedAttempts = 0\<rparr>
                else waitNext k p)"
      unfolding st by (rule allI) (rule fold_Disconnected_waitNext)
    have e2: "\<forall>q. q \<notin> set (peers_to_disconnect k peers skipPeers) \<longrightarrow>
               (Exists (connectedPeers (snd (ClosestPeer k peers now addr skipPeers))) q
                  \<longleftrightarrow> Exists (connectedPeers k) q)"
      unfolding st Exists_def fold_Disconnected_connectedPeers
      by (intro allI impI) (rule fold_Remove_other)
    have e3: "bins_by_proximity (base k) (connectedPeers k) \<longrightarrow>
               (\<forall>p \<in> set (peers_to_disconnect k peers skipPeers).
                  \<not> Exists (connectedPeers (snd (ClosestPeer k peers now addr skipPeers))) p)"
      unfolding st Exists_def fold_Disconnected_connectedPeers
      by (intro impI ballI) (rule fold_Remove_removed)
    have e4: "base (snd (ClosestPeer k peers now addr skipPeers)) = base k"
      unfolding st by (rule fr[THEN conjunct1])
    have e5: "knownPeers (snd (ClosestPeer k peers now addr skipPeers)) = knownPeers k"
      unfolding st by (rule fr[THEN conjunct2, THEN conjunct1])
    show "snd (ClosestPeer k peers now addr skipPeers)
            = fold (\<lambda>v k. Disconnected k now v) (peers_to_disconnect k peers skipPeers) k
        \<and> (\<forall>p. waitNext (snd (ClosestPeer k peers now addr skipPeers)) p =
               (if p \<in> set (peers_to_disconnect k peers skipPeers)
                then Some \<lparr>tryAfter = now + timeToRetry, failedAttempts = 0\<rparr>
                else waitNext k p))
        \<and> (\<forall>q. q \<notin> set (peers_to_disconnect k peers skipPeers) \<longrightarrow>
               (Exists (connectedPeers (snd (ClosestPeer k peers now addr skipPeers))) q
                  \<longleftrightarrow> Exists (connectedPeers k) q))
        \<and> (bins_by_proximity (base k) (connectedPeers k) \<longrightarrow>
               (\<forall>p \<in> set (peers_to_disconnect k peers skipPeers).
                  \<not> Exists (connectedPeers (snd (ClosestPeer k peers now addr skipPeers))) p))
        \<and> base (snd (ClosestPeer k peers now addr skipPeers)) = base k
        \<and> knownPeers (snd (ClosestPeer k peers now addr skipPeers)) = knownPeers k"
      by (rule conjI[OF st conjI[OF e1 conjI[OF e2 conjI[OF e3 conjI[OF e4 e5]]]]])
  qed
  note f = peers_to_disconnect_set[of k peers skipPeers]
  show ?thesis
    by (rule conjI[OF old[THEN conjunct1] conjI[OF old[THEN conjunct2, THEN conjunct1]
          conjI[OF old[THEN conjunct2, THEN conjunct2] conjI[OF d conjI[OF e f]]]]])
qed

theorem ClosestPeer_result_witness:
  "fst (ClosestPeer ex_kad [addr32 0x80, addr32 0x40, addr32 0x60] 0 (addr32 0x70) [])
     = Inr (addr32 0x60)
   \<and> addr32 0x60 \<in> set (eligible ex_kad [addr32 0x80, addr32 0x40, addr32 0x60] [])
   \<and> Distance (addr32 0x70) (addr32 0x60) < Distance (addr32 0x70) (base ex_kad)
   \<and> Distance (addr32 0x70) (addr32 0x60) \<le> Distance (addr32 0x70) (addr32 0x40)
   \<and> fst (ClosestPeer ex_kad [addr32 0x80, addr32 0x40, addr32 0x60] 0 (addr32 0x70)
            [addr32 0x60]) = Inr (addr32 0x40)
   \<and> fst (ClosestPeer ex_kad [addr32 0x80, addr32 0x40, addr32 0x60] 0 (addr32 1) [])
        = Inl TopologyErrWantSelf
   \<and> fst (ClosestPeer ex_kad [addr32 0x80, addr32 0x60] 5 (addr32 0x70) []) = Inr (addr32 0x60)
   \<and> peers_to_disconnect ex_kad [addr32 0x80, addr32 0x60] [] = [addr32 0x40]
   \<and> \<not> Exists (connectedPeers (snd (ClosestPeer ex_kad [addr32 0x80, addr32 0x60] 5 (addr32 0x70) []))) (addr32 0x40)
   \<and> Exists (connectedPeers (snd (ClosestPeer ex_kad [addr32 0x80, addr32 0x60] 5 (addr32 0x70) []))) (addr32 0x60)
   \<and> waitNext (snd (ClosestPeer ex_kad [addr32 0x80, addr32 0x60] 5 (addr32 0x70) [])) (addr32 0x40)
       = Some \<lparr>tryAfter = 5 + timeToRetry, failedAttempts = 0\<rparr>
   \<and> waitNext (snd (ClosestPeer ex_kad [addr32 0x80, addr32 0x60] 5 (addr32 0x70) [])) (addr32 0x60) = None"
proof -
  let ?ps = "[addr32 0x80, addr32 0x40, addr32 0x60]"
  let ?qs = "[addr32 0x80, addr32 0x60]"
  have b: "length (base ex_kad) = length (addr32 0x70)"
    by (simp add: ex_kad_def length_addr32)
  have l: "\<forall>p \<in> set (concat (connectedPeers ex_kad)). length p = length (addr32 0x70)"
    by (simp add: ex_kad_def length_addr32)
  have ne: "Length (connectedPeers ex_kad) \<noteq> 0"
    by (simp add: ex_kad_def Length_def)
  have e1: "fst (ClosestPeer ex_kad ?ps 0 (addr32 0x70) []) = Inr (addr32 0x60)"
    by (simp add: ClosestPeer_ex_kad ClosestPeer_walk_def DistanceCmp_def length_addr32
        Distance_addr32 addr32_eq)
  have e2: "fst (ClosestPeer ex_kad ?ps 0 (addr32 0x70) [addr32 0x60]) = Inr (addr32 0x40)"
    by (simp add: ClosestPeer_ex_kad ClosestPeer_walk_def DistanceCmp_def length_addr32
        Distance_addr32 addr32_eq)
  have e3: "fst (ClosestPeer ex_kad ?ps 0 (addr32 1) []) = Inl TopologyErrWantSelf"
    by (simp add: ClosestPeer_ex_kad ClosestPeer_walk_def DistanceCmp_def length_addr32
        Distance_addr32 addr32_eq)
  have e4: "addr32 0x40 \<in> set (eligible ex_kad ?ps [])"
    by (simp add: eligible_def walk_ex_kad)
  have e5: "fst (ClosestPeer ex_kad ?qs 5 (addr32 0x70) []) = Inr (addr32 0x60)"
    by (simp add: ClosestPeer_ex_kad ClosestPeer_walk_def DistanceCmp_def length_addr32
        Distance_addr32 addr32_eq)
  note r = ClosestPeer_result[OF b l, of ?ps 0 "[]", THEN conjunct2, THEN conjunct1, THEN mp,
      OF ne, THEN conjunct2, THEN conjunct2, rule_format, OF e1]
  have f1: "addr32 0x60 \<in> set (eligible ex_kad ?ps [])" by (rule r[THEN conjunct1])
  have f2: "Distance (addr32 0x70) (addr32 0x60) \<le> Distance (addr32 0x70) (addr32 0x40)"
    by (rule r[THEN conjunct2, THEN conjunct1, rule_format, OF e4])
  have f3: "Distance (addr32 0x70) (addr32 0x60) < Distance (addr32 0x70) (base ex_kad)"
    by (rule r[THEN conjunct2, THEN conjunct2])
  note st = ClosestPeer_result[OF b l, of ?qs 5 "[]", THEN conjunct2, THEN conjunct2,
      THEN conjunct2, THEN conjunct2, THEN conjunct1, THEN mp, OF ne]
  have w: "bins_by_proximity (base ex_kad) (connectedPeers ex_kad)"
    by code_simp
  have d: "peers_to_disconnect ex_kad ?qs [] = [addr32 0x40]"
    by (simp add: peers_to_disconnect_def walk_ex_kad addr32_eq)
  have i1: "addr32 0x40 \<in> set (peers_to_disconnect ex_kad ?qs [])"
    unfolding d by simp
  have i2: "addr32 0x60 \<notin> set (peers_to_disconnect ex_kad ?qs [])"
    unfolding d by (simp add: addr32_eq)
  have c: "Exists (connectedPeers ex_kad) (addr32 0x60)"
    by (simp add: Exists_def ex_kad_def)
  have g1: "\<not> Exists (connectedPeers (snd (ClosestPeer ex_kad ?qs 5 (addr32 0x70) []))) (addr32 0x40)"
    by (rule st[THEN conjunct2, THEN conjunct2, THEN conjunct2, THEN conjunct1, THEN mp, OF w,
          rule_format, OF i1])
  have g2: "Exists (connectedPeers (snd (ClosestPeer ex_kad ?qs 5 (addr32 0x70) []))) (addr32 0x60)"
    using st[THEN conjunct2, THEN conjunct2, THEN conjunct1, rule_format, OF i2] c by (rule iffD2)
  note wn = st[THEN conjunct2, THEN conjunct1, rule_format]
  have g3: "waitNext (snd (ClosestPeer ex_kad ?qs 5 (addr32 0x70) [])) (addr32 0x40)
       = Some \<lparr>tryAfter = 5 + timeToRetry, failedAttempts = 0\<rparr>"
    using wn[of "addr32 0x40"] i1 by (simp only: if_True)
  have "waitNext (snd (ClosestPeer ex_kad ?qs 5 (addr32 0x70) [])) (addr32 0x60)
       = waitNext ex_kad (addr32 0x60)"
    using wn[of "addr32 0x60"] i2 by (simp only: if_False)
  also have "\<dots> = None" by (simp add: ex_kad_def)
  finally have g4: "waitNext (snd (ClosestPeer ex_kad ?qs 5 (addr32 0x70) [])) (addr32 0x60) = None" .
  show ?thesis
    by (rule conjI[OF e1 conjI[OF f1 conjI[OF f3 conjI[OF f2 conjI[OF e2 conjI[OF e3
          conjI[OF e5 conjI[OF d conjI[OF g1 conjI[OF g2 conjI[OF g3 g4]]]]]]]]]]])
qed










section \<open>Kademlia: results on the pseudo-addresses\<close>

lemma hasBit_bit: "hasBit n pos \<longleftrightarrow> bit n pos"
proof -
  have "n AND push_bit pos 1 \<noteq> 0 \<longleftrightarrow> bit n pos"
    by (metis and_exp_eq_0_iff_not_bit push_bit_of_1)
  then show ?thesis by (simp add: hasBit_def Let_def word_greater_zero_iff)
qed

lemma bit_Reverse8: "bit (Reverse8 b) q \<longleftrightarrow> q < 8 \<and> bit b (7 - q)"
  by (auto simp: Reverse8_def bit_word_reverse_iff)

lemma bit_set_msb:
  "pos < 8 \<Longrightarrow> q < 8 \<Longrightarrow>
     bit (Reverse8 (setBit (Reverse8 b) pos)) q \<longleftrightarrow> q = 7 - pos \<or> bit b q"
  by (auto simp: bit_Reverse8 setBit_def bit_or_iff bit_exp_iff)

lemma bit_clear_msb:
  "pos < 8 \<Longrightarrow> q < 8 \<Longrightarrow>
     bit (Reverse8 (clearBit (Reverse8 b) pos)) q \<longleftrightarrow> q \<noteq> 7 - pos \<and> bit b q"
  by (auto simp: bit_Reverse8 clearBit_def Let_def bit_and_iff bit_not_iff bit_exp_iff)


lemma same_byte_same_bit:
  "p div 8 = l div 8 \<Longrightarrow> (7 - p mod 8 = 7 - l mod 8) \<longleftrightarrow> p = (l::nat)"
proof -
  assume d: "p div 8 = l div 8"
  have "p mod 8 < 8" "l mod 8 < 8" by simp_all
  then have "(7 - p mod 8 = 7 - l mod 8) \<longleftrightarrow> p mod 8 = l mod 8" by linarith
  also have "\<dots> \<longleftrightarrow> p = l" using d by (metis div_mult_mod_eq)
  finally show ?thesis .
qed

lemma set_at_bits:
  assumes "l < 8 * length bs"
  shows "\<exists>r. set_at bs l = Inr r \<and> length r = length bs
     \<and> (\<forall>p < 8 * length bs. addr_bit r p \<longleftrightarrow> p = l \<or> addr_bit bs p)"
proof -
  have idx: "l div 8 < length bs" using assms by auto
  define r where "r = bs[l div 8 := Reverse8 (setBit (Reverse8 (bs ! (l div 8))) (l mod 8))]"
  have s: "set_at bs l = Inr r" using idx by (simp add: set_at_def r_def Let_def)
  have "addr_bit r p \<longleftrightarrow> p = l \<or> addr_bit bs p" if "p < 8 * length bs" for p
  proof (cases "p div 8 = l div 8")
    case True
    have "r ! (p div 8) = Reverse8 (setBit (Reverse8 (bs ! (l div 8))) (l mod 8))"
      using idx True by (simp add: r_def)
    then have "addr_bit r p \<longleftrightarrow> 7 - p mod 8 = 7 - l mod 8 \<or> bit (bs ! (l div 8)) (7 - p mod 8)"
      unfolding addr_bit_def by (simp add: bit_set_msb)
    then show ?thesis using same_byte_same_bit[OF True] True by (simp add: addr_bit_def)
  next
    case False
    then have "r ! (p div 8) = bs ! (p div 8)" by (simp add: r_def)
    moreover have "p \<noteq> l" using False by auto
    ultimately show ?thesis by (simp add: addr_bit_def)
  qed
  then show ?thesis using s by (simp add: r_def)
qed

lemma clear_at_bits:
  assumes "l < 8 * length bs"
  shows "\<exists>r. clear_at bs l = Inr r \<and> length r = length bs
     \<and> (\<forall>p < 8 * length bs. addr_bit r p \<longleftrightarrow> p \<noteq> l \<and> addr_bit bs p)"
proof -
  have idx: "l div 8 < length bs" using assms by auto
  define r where "r = bs[l div 8 := Reverse8 (clearBit (Reverse8 (bs ! (l div 8))) (l mod 8))]"
  have s: "clear_at bs l = Inr r" using idx by (simp add: clear_at_def r_def Let_def)
  have "addr_bit r p \<longleftrightarrow> p \<noteq> l \<and> addr_bit bs p" if "p < 8 * length bs" for p
  proof (cases "p div 8 = l div 8")
    case True
    have "r ! (p div 8) = Reverse8 (clearBit (Reverse8 (bs ! (l div 8))) (l mod 8))"
      using idx True by (simp add: r_def)
    then have "addr_bit r p \<longleftrightarrow> 7 - p mod 8 \<noteq> 7 - l mod 8 \<and> bit (bs ! (l div 8)) (7 - p mod 8)"
      unfolding addr_bit_def by (simp add: bit_clear_msb)
    then show ?thesis using same_byte_same_bit[OF True] True by (simp add: addr_bit_def)
  next
    case False
    then have "r ! (p div 8) = bs ! (p div 8)" by (simp add: r_def)
    moreover have "p \<noteq> l" using False by auto
    ultimately show ?thesis by (simp add: addr_bit_def)
  qed
  then show ?thesis using s by (simp add: r_def)
qed

lemma flip_at_bits:
  assumes "i < 8 * length bs"
  shows "\<exists>r. flip_at bs i = Inr r \<and> length r = length bs
     \<and> (\<forall>p < 8 * length bs. addr_bit r p \<longleftrightarrow> (if p = i then \<not> addr_bit bs i else addr_bit bs p))"
proof -
  have idx: "i div 8 < length bs" using assms by auto
  have h: "hasBit (Reverse8 (bs ! (i div 8))) (i mod 8) \<longleftrightarrow> addr_bit bs i"
    by (simp add: hasBit_bit bit_Reverse8 addr_bit_def)
  show ?thesis
  proof (cases "addr_bit bs i")
    case True
    then have "flip_at bs i = clear_at bs i" using idx h by (simp add: flip_at_def Let_def)
    then show ?thesis using clear_at_bits[OF assms] True by auto
  next
    case False
    then have "flip_at bs i = set_at bs i" using idx h by (simp add: flip_at_def Let_def)
    then show ?thesis using set_at_bits[OF assms] False by auto
  qed
qed

lemma suffix_loop_bits:
  assumes "b \<le> 8 * length bs"
  shows "\<exists>r. suffix_loop bs sfx pos [a ..< b] = Inr r \<and> length r = length bs
     \<and> (\<forall>p < 8 * length bs. addr_bit r p \<longleftrightarrow>
           (if a \<le> p \<and> p < b then bit sfx (uint8_of_int (pos - int (p - a))) else addr_bit bs p))"
  using assms
proof (induction "b - a" arbitrary: a bs pos)
  case 0
  then show ?case by auto
next
  case (Suc n)
  then have ab: "a < b" by simp
  then have u: "[a ..< b] = a # [Suc a ..< b]" by (simp add: upt_rec)
  have al: "a < 8 * length bs" using ab Suc.prems by simp
  obtain bs1 where bs1: "(if hasBit sfx (uint8_of_int pos) then set_at bs a else clear_at bs a) = Inr bs1"
      "length bs1 = length bs"
      "\<forall>p < 8 * length bs. addr_bit bs1 p \<longleftrightarrow> (if p = a then bit sfx (uint8_of_int pos) else addr_bit bs p)"
    using set_at_bits[OF al] clear_at_bits[OF al] by (cases "hasBit sfx (uint8_of_int pos)") (auto simp: hasBit_bit)
  have n: "n = b - Suc a" using Suc.hyps(2) by simp
  have le: "b \<le> 8 * length bs1" using Suc.prems bs1(2) by simp
  from Suc.hyps(1)[OF n le, of "pos - 1"]
  obtain r where r: "suffix_loop bs1 sfx (pos - 1) [Suc a ..< b] = Inr r" "length r = length bs1"
    "\<forall>p < 8 * length bs1. addr_bit r p \<longleftrightarrow>
           (if Suc a \<le> p \<and> p < b then bit sfx (uint8_of_int (pos - 1 - int (p - Suc a)))
            else addr_bit bs1 p)"
    by blast
  have "suffix_loop bs sfx pos [a ..< b] = Inr r"
    unfolding u using bs1(1) r(1) by simp
  moreover have "addr_bit r p \<longleftrightarrow>
           (if a \<le> p \<and> p < b then bit sfx (uint8_of_int (pos - int (p - a))) else addr_bit bs p)"
    if p: "p < 8 * length bs" for p
  proof (cases "Suc a \<le> p \<and> p < b")
    case True
    then have e: "pos - 1 - int (p - Suc a) = pos - int (p - a)" by (simp add: of_nat_diff)
    have pl: "p < 8 * length bs1" using p bs1(2) by simp
    have c: "a \<le> p \<and> p < b" using True by simp
    have "addr_bit r p =
        (if Suc a \<le> p \<and> p < b then bit sfx (uint8_of_int (pos - 1 - int (p - Suc a)))
         else addr_bit bs1 p)"
      using r(3) pl by blast
    also have "\<dots> = bit sfx (uint8_of_int (pos - 1 - int (p - Suc a)))"
      using True by (rule if_P)
    also have "\<dots> = bit sfx (uint8_of_int (pos - int (p - a)))"
      by (simp only: e)
    also have "\<dots> = (if a \<le> p \<and> p < b then bit sfx (uint8_of_int (pos - int (p - a)))
         else addr_bit bs p)"
      using c by (rule if_P[symmetric])
    finally show ?thesis .
  next
    case False
    have pl: "p < 8 * length bs1" using p bs1(2) by simp
    have "addr_bit r p =
        (if Suc a \<le> p \<and> p < b then bit sfx (uint8_of_int (pos - 1 - int (p - Suc a)))
         else addr_bit bs1 p)"
      using r(3) pl by blast
    also have "\<dots> = addr_bit bs1 p" using False by (rule if_not_P)
    also have "\<dots> = (if p = a then bit sfx (uint8_of_int pos) else addr_bit bs p)"
      using bs1(3) p by blast
    finally have A: "addr_bit r p = (if p = a then bit sfx (uint8_of_int pos) else addr_bit bs p)" .
    show ?thesis
    proof (cases "p = a")
      case True
      then show ?thesis using A ab by simp
    next
      case ne: False
      then have "\<not> (a \<le> p \<and> p < b)" using False by auto
      then show ?thesis using A ne by (simp only: if_False)
    qed
  qed
  ultimately show ?case using r(2) bs1(2) by simp
qed

lemma clear_loop_bits:
  assumes "b \<le> 8 * length bs"
  shows "\<exists>r. clear_loop bs [a ..< b] = Inr r \<and> length r = length bs
     \<and> (\<forall>p < 8 * length bs. addr_bit r p \<longleftrightarrow> \<not> (a \<le> p \<and> p < b) \<and> addr_bit bs p)"
  using assms
proof (induction "b - a" arbitrary: a bs)
  case 0
  then show ?case by auto
next
  case (Suc n)
  then have ab: "a < b" by simp
  then have u: "[a ..< b] = a # [Suc a ..< b]" by (simp add: upt_rec)
  have al: "a < 8 * length bs" using ab Suc.prems by simp
  from clear_at_bits[OF al]
  obtain bs1 where bs1: "clear_at bs a = Inr bs1" "length bs1 = length bs"
      "\<forall>p < 8 * length bs. addr_bit bs1 p \<longleftrightarrow> p \<noteq> a \<and> addr_bit bs p"
    by blast
  have n: "n = b - Suc a" using Suc.hyps(2) by simp
  have le: "b \<le> 8 * length bs1" using Suc.prems bs1(2) by simp
  from Suc.hyps(1)[OF n le]
  obtain r where r: "clear_loop bs1 [Suc a ..< b] = Inr r" "length r = length bs1"
    "\<forall>p < 8 * length bs1. addr_bit r p \<longleftrightarrow> \<not> (Suc a \<le> p \<and> p < b) \<and> addr_bit bs1 p"
    by blast
  have "clear_loop bs [a ..< b] = Inr r" unfolding u using bs1(1) r(1) by simp
  moreover have "addr_bit r p \<longleftrightarrow> \<not> (a \<le> p \<and> p < b) \<and> addr_bit bs p"
    if p: "p < 8 * length bs" for p
    using r(3) bs1(2,3) p ab by auto
  ultimately show ?case using r(2) bs1(2) by simp
qed

lemma uint8_of_int_small: "q < 256 \<Longrightarrow> uint8_of_int (int q) = q"
  by (simp add: uint8_of_int_def)

lemma pseudoAddr_bits:
  assumes "i + bsl < 8 * length base_addr" "bsl \<le> 8"
  shows "\<exists>r. pseudoAddr bsl base_addr i j = Inr r \<and> length r = length base_addr
     \<and> (\<forall>p < 8 * length base_addr. addr_bit r p = pseudo_address_bit_spec base_addr bsl i j p)"
proof -
  have i: "i < 8 * length base_addr" using assms(1) by simp
  from flip_at_bits[OF i]
  obtain bs1 where bs1: "flip_at base_addr i = Inr bs1" "length bs1 = length base_addr"
    "\<forall>p < 8 * length base_addr. addr_bit bs1 p \<longleftrightarrow>
        (if p = i then \<not> addr_bit base_addr i else addr_bit base_addr p)"
    by blast
  have b2: "i + bsl + 1 \<le> 8 * length bs1" using assms(1) bs1(2) by simp
  from suffix_loop_bits[OF b2, of "of_nat j" "int bsl - 1" "i + 1"]
  obtain bs2 where bs2:
    "suffix_loop bs1 (of_nat j) (int bsl - 1) [i + 1 ..< i + bsl + 1] = Inr bs2"
    "length bs2 = length bs1"
    "\<forall>p < 8 * length bs1. addr_bit bs2 p \<longleftrightarrow>
        (if i + 1 \<le> p \<and> p < i + bsl + 1
         then bit (of_nat j :: byte) (uint8_of_int (int bsl - 1 - int (p - (i + 1))))
         else addr_bit bs1 p)"
    by blast
  have b3: "length bs2 * 8 \<le> 8 * length bs2" by simp
  from clear_loop_bits[OF b3, of "i + bsl + 1"]
  obtain r where r: "clear_loop bs2 [i + bsl + 1 ..< length bs2 * 8] = Inr r"
    "length r = length bs2"
    "\<forall>p < 8 * length bs2. addr_bit r p \<longleftrightarrow>
        \<not> (i + bsl + 1 \<le> p \<and> p < length bs2 * 8) \<and> addr_bit bs2 p"
    by blast
  have run: "pseudoAddr bsl base_addr i j = Inr r"
    using bs1(1) bs2(1) r(1) by (simp add: pseudoAddr_def Let_def)
  have "addr_bit r p = pseudo_address_bit_spec base_addr bsl i j p"
    if p: "p < 8 * length base_addr" for p
  proof -
    have p1: "p < 8 * length bs1" "p < 8 * length bs2" "p < length bs2 * 8"
      using p bs1(2) bs2(2) by simp_all
    have R: "addr_bit r p \<longleftrightarrow> \<not> (i + bsl + 1 \<le> p \<and> p < length bs2 * 8) \<and> addr_bit bs2 p"
      using r(3) p1(2) by blast
    have S: "addr_bit bs2 p \<longleftrightarrow>
        (if i + 1 \<le> p \<and> p < i + bsl + 1
         then bit (of_nat j :: byte) (uint8_of_int (int bsl - 1 - int (p - (i + 1))))
         else addr_bit bs1 p)"
      using bs2(3) p1(1) by blast
    have F: "addr_bit bs1 p \<longleftrightarrow> (if p = i then \<not> addr_bit base_addr i else addr_bit base_addr p)"
      using bs1(3) p by blast
    consider "p < i" | "p = i" | "i < p" "p \<le> i + bsl" | "i + bsl < p" by linarith
    then show ?thesis
    proof cases
      case 1
      then show ?thesis unfolding R S F by (simp add: pseudo_address_bit_spec_def)
    next
      case 2
      then show ?thesis unfolding R S F by (simp add: pseudo_address_bit_spec_def)
    next
      case 3
      define q where "q = i + bsl - p"
      have q: "q < 8" "q < 256" using 3 assms(2) by (simp_all add: q_def)
      have "int bsl - 1 - int (p - (i + 1)) = int q" using 3 by (simp add: q_def of_nat_diff)
      then have "addr_bit bs2 p \<longleftrightarrow> bit (of_nat j :: byte) q"
        unfolding S using 3 by (simp add: uint8_of_int_small[OF q(2)])
      also have "\<dots> \<longleftrightarrow> bit j q" using q(1) by (simp add: bit_of_nat_iff)
      finally show ?thesis unfolding R using 3 p1(3)
        by (simp add: pseudo_address_bit_spec_def q_def)
    next
      case 4
      then show ?thesis unfolding R using p1(3) by (simp add: pseudo_address_bit_spec_def)
    qed
  qed
  then show ?thesis using run r(2) bs2(2) bs1(2) by simp
qed

lemma nth_concat_bytes:
  assumes "\<And>x. length (f x) = 8" "p < 8 * length xs"
  shows "concat (map f xs) ! p = f (xs ! (p div 8)) ! (p mod 8)"
  using assms(2)
proof (induction xs arbitrary: p)
  case Nil
  then show ?case by simp
next
  case (Cons x xs)
  show ?case
  proof (cases "p < 8")
    case True
    then show ?thesis using assms(1)[of x] by (simp add: nth_append)
  next
    case False
    then have p8: "p - 8 < 8 * length xs" "(p - 8) div 8 = p div 8 - 1" "(p - 8) mod 8 = p mod 8"
      "0 < p div 8"
    proof -
      obtain m where m: "p = m + 8" using False by (metis add.commute le_add_diff_inverse not_less)
      show "p - 8 < 8 * length xs" using Cons.prems m by simp
      show "(p - 8) div 8 = p div 8 - 1" by (simp add: m)
      show "(p - 8) mod 8 = p mod 8" by (simp add: m)
      show "0 < p div 8" by (simp add: m)
    qed
    have "concat (map f (x # xs)) ! p = concat (map f xs) ! (p - 8)"
      using False assms(1)[of x] by (simp add: nth_append)
    also have "\<dots> = f (xs ! ((p - 8) div 8)) ! ((p - 8) mod 8)" by (rule Cons.IH[OF p8(1)])
    also have "\<dots> = f ((x # xs) ! (p div 8)) ! (p mod 8)"
      using p8 by (simp add: nth_Cons split: nat.split)
    finally show ?thesis .
  qed
qed

lemma length_address_bits: "length (address_bits a) = 8 * length a"
  by (induction a) (simp_all add: address_bits_def byte_bits_def)

lemma nth_address_bits: "p < 8 * length a \<Longrightarrow> address_bits a ! p = addr_bit a p"
proof -
  assume p: "p < 8 * length a"
  have "concat (map byte_bits a) ! p = byte_bits (a ! (p div 8)) ! (p mod 8)"
    by (rule nth_concat_bytes[OF _ p]) (simp add: byte_bits_def)
  also have "\<dots> = bit (a ! (p div 8)) (7 - p mod 8)"
    by (simp add: byte_bits_def del: upt_Suc)
  finally show ?thesis by (simp add: address_bits_def addr_bit_def)
qed

lemma matching_bits_first_difference:
  assumes "length a = length b" "i < 8 * length a"
    and "\<forall>p < i. addr_bit a p = addr_bit b p" "addr_bit a i \<noteq> addr_bit b i"
  shows "matching_bits a b = i"
proof -
  let ?z = "zip (address_bits a) (address_bits b)"
  have l: "length ?z = 8 * length a" using assms(1) by (simp add: length_address_bits)
  have n: "?z ! p = (addr_bit a p, addr_bit b p)" if "p < 8 * length a" for p
    using that assms(1) by (simp add: length_address_bits nth_address_bits)
  have "takeWhile (\<lambda>(x, y). x = y) ?z = take i ?z"
  proof (rule takeWhile_eq_take_P_nth)
    fix p assume "p < i" "p < length ?z"
    then show "case ?z ! p of (x, y) \<Rightarrow> x = y" using n[of p] assms(2,3) by simp
  next
    assume "i < length ?z"
    then show "\<not> (case ?z ! i of (x, y) \<Rightarrow> x = y)" using n[of i] assms(2,4) by simp
  qed
  then show ?thesis using l assms(2) by (simp add: matching_bits_def)
qed

lemma all_or_error_Inr:
  "\<forall>x \<in> set xs. \<exists>v. f x = Inr v \<Longrightarrow> all_or_error (map f xs) = Inr (map (\<lambda>x. projr (f x)) xs)"
  by (induction xs) auto

lemma pseudoAddr_proximity:
  assumes "bsl \<le> 8" "length base_addr = 32" "i < MaxBins"
  shows "\<exists>r. pseudoAddr bsl base_addr i j = Inr r \<and> length r = 32
     \<and> (\<forall>p < 256. addr_bit r p = pseudo_address_bit_spec base_addr bsl i j p)
     \<and> Proximity base_addr r = i"
proof -
  have i: "i < 16" using assms(3) by (simp add: MaxBins_def MaxPO_def)
  then have b: "i + bsl < 8 * length base_addr" using assms(1,2) by simp
  from pseudoAddr_bits[OF b assms(1), of j]
  obtain r where r: "pseudoAddr bsl base_addr i j = Inr r" "length r = length base_addr"
    "\<forall>p < 8 * length base_addr. addr_bit r p = pseudo_address_bit_spec base_addr bsl i j p"
    by blast
  have "matching_bits base_addr r = i"
  proof (rule matching_bits_first_difference)
    show "length base_addr = length r" using r(2) by simp
    show "i < 8 * length base_addr" using b by simp
    show "\<forall>p < i. addr_bit base_addr p = addr_bit r p"
      using r(3) b by (simp add: pseudo_address_bit_spec_def)
    show "addr_bit base_addr i \<noteq> addr_bit r i"
      using r(3) b by (simp add: pseudo_address_bit_spec_def)
  qed
  then have "Proximity base_addr r = i" using i by (simp add: Proximity_def MaxPO_def)
  then show ?thesis using r assms(2) by simp
qed

lemma pseudoAddr_suffix_wraps: "pseudoAddr 9 (addr32 0) 0 256 = Inr (addr32 0x80)"
  by code_simp

text \<open>
  C8, as stated, has the \<open>bitSuffixLength\<close> bits after bit \<open>i\<close> hold the binary encoding
  of \<open>j\<close> for every \<open>j\<close> below \<open>2 ^ bitSuffixLength\<close>. The suffixes are kept in bytes
  (\<^verbatim>\<open>bitSufixes[j] = uint8(j)\<close>): with \<open>bitSuffixLength = 9\<close>, the base address of zeros,
  bin 0 and \<open>j = 256\<close>, the pseudo-address is \<open>80 00 \<dots>\<close>, whose bit 1 is zero, where the
  nine-bit encoding of 256 has a one.
\<close>

theorem pseudoAddr_suffix_is_a_byte:
  "pseudoAddr 9 (addr32 0) 0 256 = Inr (addr32 0x80)
   \<and> \<not> addr_bit (addr32 0x80) 1
   \<and> pseudo_address_bit_spec (addr32 0) 9 0 256 1"
proof -
  have "\<not> addr_bit (addr32 0x80) 1 \<and> pseudo_address_bit_spec (addr32 0) 9 0 256 1"
    by code_simp
  then show ?thesis using pseudoAddr_suffix_wraps by simp
qed

text \<open>
  C8 (amended): for a suffix length of at most 8 bits and a base address of 32 bytes,
  \<^verbatim>\<open>generateCommonBinPrefixes\<close> returns a table of \<^verbatim>\<open>MaxBins\<close> rows of
  \<open>2 ^ bitSuffixLength\<close> addresses, and for every bin \<open>i\<close> and every index \<open>j\<close> the
  address at \<open>[i][j]\<close> is the base address with bit \<open>i\<close> flipped, the next
  \<open>bitSuffixLength\<close> bits set to the binary encoding of \<open>j\<close> and all remaining bits
  zero; its proximity order with the base address is exactly \<open>i\<close>.
\<close>

theorem generateCommonBinPrefixes_pseudo_addresses:
  assumes "bsl \<le> 8" "length base_addr = 32"
  shows "\<exists>tbl. generateCommonBinPrefixes bsl base_addr = Inr tbl \<and> length tbl = MaxBins
     \<and> (\<forall>i < MaxBins. length (tbl ! i) = 2 ^ bsl
          \<and> (\<forall>j < 2 ^ bsl. length (tbl ! i ! j) = 32
               \<and> (\<forall>p < 256. addr_bit (tbl ! i ! j) p
                                = pseudo_address_bit_spec base_addr bsl i j p)
               \<and> Proximity base_addr (tbl ! i ! j) = i))"
proof -
  let ?row = "\<lambda>i. map (\<lambda>j. projr (pseudoAddr bsl base_addr i j)) [0 ..< 2 ^ bsl]"
  let ?tbl = "map ?row [0 ..< MaxBins]"
  have inner: "all_or_error (map (\<lambda>j. pseudoAddr bsl base_addr i j) [0 ..< 2 ^ bsl]) = Inr (?row i)"
    if "i < MaxBins" for i
  proof (rule all_or_error_Inr)
    show "\<forall>j \<in> set [0 ..< 2 ^ bsl]. \<exists>v. pseudoAddr bsl base_addr i j = Inr v"
      using pseudoAddr_proximity[OF assms that] by blast
  qed
  have "all_or_error (map (\<lambda>i. all_or_error
          (map (\<lambda>j. pseudoAddr bsl base_addr i j) [0 ..< 2 ^ bsl])) [0 ..< MaxBins])
      = Inr (map (\<lambda>i. projr (all_or_error
          (map (\<lambda>j. pseudoAddr bsl base_addr i j) [0 ..< 2 ^ bsl]))) [0 ..< MaxBins])"
    by (rule all_or_error_Inr) (use inner in auto)
  also have "map (\<lambda>i. projr (all_or_error
          (map (\<lambda>j. pseudoAddr bsl base_addr i j) [0 ..< 2 ^ bsl]))) [0 ..< MaxBins] = ?tbl"
    using inner by simp
  finally have g: "generateCommonBinPrefixes bsl base_addr = Inr ?tbl"
    by (simp add: generateCommonBinPrefixes_def Let_def)
  have "length (?tbl ! i ! j) = 32
      \<and> (\<forall>p < 256. addr_bit (?tbl ! i ! j) p = pseudo_address_bit_spec base_addr bsl i j p)
      \<and> Proximity base_addr (?tbl ! i ! j) = i"
    if "i < MaxBins" "j < 2 ^ bsl" for i j
  proof -
    from pseudoAddr_proximity[OF assms that(1), of j]
    obtain r where r: "pseudoAddr bsl base_addr i j = Inr r" "length r = 32"
      "\<forall>p < 256. addr_bit r p = pseudo_address_bit_spec base_addr bsl i j p"
      "Proximity base_addr r = i"
      by blast
    have "?tbl ! i ! j = r" using that r(1) by simp
    then show ?thesis using r by simp
  qed
  moreover have "length (?tbl ! i) = 2 ^ bsl" if "i < MaxBins" for i using that by simp
  moreover have "length ?tbl = MaxBins" by simp
  ultimately show ?thesis using g by blast
qed

theorem generateCommonBinPrefixes_pseudo_addresses_witness:
  "\<exists>tbl. generateCommonBinPrefixes 2 (replicate 32 0xFF) = Inr tbl
     \<and> length tbl = 16 \<and> length (tbl ! 3) = 4
     \<and> Proximity (replicate 32 0xFF) (tbl ! 3 ! 1) = 3
     \<and> \<not> addr_bit (tbl ! 3 ! 1) 3 \<and> \<not> addr_bit (tbl ! 3 ! 1) 4 \<and> addr_bit (tbl ! 3 ! 1) 5
     \<and> \<not> addr_bit (tbl ! 3 ! 1) 6"
proof -
  have h: "(2::nat) \<le> 8" "length (replicate 32 (0xFF::byte)) = 32" by simp_all
  have b: "addr_bit (replicate 32 0xFF) 3" by (simp add: addr_bit_def)
  from generateCommonBinPrefixes_pseudo_addresses[OF h]
  obtain tbl where t: "generateCommonBinPrefixes 2 (replicate 32 0xFF) = Inr tbl"
    "length tbl = MaxBins"
    "\<forall>i < MaxBins. length (tbl ! i) = 2 ^ 2
          \<and> (\<forall>j < 2 ^ 2. length (tbl ! i ! j) = 32
               \<and> (\<forall>p < 256. addr_bit (tbl ! i ! j) p
                                = pseudo_address_bit_spec (replicate 32 0xFF) 2 i j p)
               \<and> Proximity (replicate 32 0xFF) (tbl ! i ! j) = i)"
    by blast
  have m: "(3::nat) < MaxBins" "MaxBins = 16" by (simp_all add: MaxBins_def MaxPO_def)
  note t3 = t(3)[rule_format, OF m(1)]
  have j: "(1::nat) < 2 ^ 2" by simp
  note t31 = conjunct2[OF t3, rule_format, OF j]
  have r: "length (tbl ! 3) = 4"
    "\<forall>p < 256. addr_bit (tbl ! 3 ! 1) p = pseudo_address_bit_spec (replicate 32 0xFF) 2 3 1 p"
    "Proximity (replicate 32 0xFF) (tbl ! 3 ! 1) = 3"
    using conjunct1[OF t3] conjunct1[OF conjunct2[OF t31]] conjunct2[OF conjunct2[OF t31]]
    by simp_all
  have s3: "pseudo_address_bit_spec (replicate 32 0xFF) 2 3 1 3 = False"
    using b by (simp add: pseudo_address_bit_spec_def)
  have s4: "pseudo_address_bit_spec (replicate 32 0xFF) 2 3 1 4 = False"
    by (simp add: pseudo_address_bit_spec_def bit_Suc_0_iff)
  have s5: "pseudo_address_bit_spec (replicate 32 0xFF) 2 3 1 5 = True"
    by (simp add: pseudo_address_bit_spec_def bit_Suc_0_iff)
  have s6: "pseudo_address_bit_spec (replicate 32 0xFF) 2 3 1 6 = False"
    by (simp add: pseudo_address_bit_spec_def)
  have "\<not> addr_bit (tbl ! 3 ! 1) 3" "\<not> addr_bit (tbl ! 3 ! 1) 4" "addr_bit (tbl ! 3 ! 1) 5"
    "\<not> addr_bit (tbl ! 3 ! 1) 6"
    using r(2)[rule_format, of 3] r(2)[rule_format, of 4] r(2)[rule_format, of 5]
      r(2)[rule_format, of 6] s3 s4 s5 s6
    by simp_all
  moreover have "length tbl = 16" using t(2) m(2) by (rule trans)
  ultimately show ?thesis using t(1) r(1,3) by (intro exI[of _ tbl] conjI)
qed

end
